theory Spec2Isabelle
  imports Main "HOL-Library.Word"
begin

unbundle bit_operations_syntax

section \<open>Machine integers and library functions\<close>

text \<open>
  Both identifier classes wrap one \<open>uint64_t\<close> field (\<open>id_\<close> in \<open>s2v1::S2CellId\<close>,
  \<open>new_id_\<close> in \<open>S2CellId\<close>); the model works on that field directly. Levels, faces and
  child positions are C++ \<open>int\<close>s that stay far inside the 32-bit range, so they are HOL
  integers; a conversion \<open>static_cast<uint64_t>(i)\<close> is \<open>word_of_int i\<close>.
\<close>

type_synonym uint64 = "64 word"

text \<open>\<open>absl::countr_zero\<close>: the number of trailing zero bits, 64 for the value 0.\<close>

definition countr_zero :: "uint64 \<Rightarrow> nat" where
  "countr_zero x = length (takeWhile (\<lambda>n. \<not> bit x n) [0..<64])"

section \<open>The Primary identifier: \<open>s2v1::S2CellId\<close> (s2cell_id_v1.h)\<close>

text \<open>
  Modelled from the spec: \<open>S2::kMaxCellLevel\<close> comes from \<open>s2coords.h\<close>, which is not among
  the sources; the spec gives the Primary identifier's maximum depth as 30.
\<close>

definition kMaxCellLevel :: int where
  "kMaxCellLevel = 30"

definition v1_kMaxLevel :: int where
  "v1_kMaxLevel = kMaxCellLevel"

definition v1_kPosBits :: nat where
  "v1_kPosBits = nat (2 * v1_kMaxLevel + 1)"

definition v1_kNumFaces :: int where
  "v1_kNumFaces = 6"

definition v1_None :: uint64 where
  "v1_None = 0"

definition v1_Sentinel :: uint64 where
  "v1_Sentinel = NOT 0"

definition v1_lsb :: "uint64 \<Rightarrow> uint64" where
  "v1_lsb x = x AND (NOT x + 1)"

definition v1_lsb_for_level :: "int \<Rightarrow> uint64" where
  "v1_lsb_for_level level = push_bit (nat (2 * (v1_kMaxLevel - level))) 1"

definition v1_face :: "uint64 \<Rightarrow> int" where
  "v1_face x = uint (drop_bit v1_kPosBits x)"

definition v1_level :: "uint64 \<Rightarrow> int" where
  "v1_level x = v1_kMaxLevel - int (countr_zero x div 2)"

definition v1_is_valid :: "uint64 \<Rightarrow> bool" where
  "v1_is_valid x \<longleftrightarrow>
     v1_face x < v1_kNumFaces \<and> (v1_lsb x AND 0x1555555555555555) \<noteq> 0"

text \<open>\<open>child_position(int level)\<close>; the cast to \<open>int\<close> keeps the two low bits that the
  mask reads.\<close>

definition v1_child_position_level :: "uint64 \<Rightarrow> int \<Rightarrow> int" where
  "v1_child_position_level x level =
     uint (drop_bit (nat (2 * (v1_kMaxLevel - level) + 1)) x AND 3)"

definition v1_child_position :: "uint64 \<Rightarrow> int" where
  "v1_child_position x = v1_child_position_level x (v1_level x)"

definition v1_range_min :: "uint64 \<Rightarrow> uint64" where
  "v1_range_min x = x - (v1_lsb x - 1)"

definition v1_range_max :: "uint64 \<Rightarrow> uint64" where
  "v1_range_max x = x + (v1_lsb x - 1)"

definition v1_contains :: "uint64 \<Rightarrow> uint64 \<Rightarrow> bool" where
  "v1_contains x other \<longleftrightarrow> v1_range_min x \<le> other \<and> other \<le> v1_range_max x"

text \<open>\<open>parent(int level)\<close> and \<open>parent()\<close>.\<close>

definition v1_parent_level :: "uint64 \<Rightarrow> int \<Rightarrow> uint64" where
  "v1_parent_level x level =
     (let new_lsb = v1_lsb_for_level level
      in (x AND (NOT new_lsb + 1)) OR new_lsb)"

definition v1_parent :: "uint64 \<Rightarrow> uint64" where
  "v1_parent x =
     (let new_lsb = push_bit 2 (v1_lsb x)
      in (x AND (NOT new_lsb + 1)) OR new_lsb)"

text \<open>\<open>child(int position)\<close>: the factor \<open>2 * position + 1 - 4\<close> is computed as an
  \<open>int\<close> and converted to \<open>uint64_t\<close> by the multiplication, so a negative factor wraps.\<close>

definition v1_child :: "uint64 \<Rightarrow> int \<Rightarrow> uint64" where
  "v1_child x position =
     (let new_lsb = drop_bit 2 (v1_lsb x)
      in x + word_of_int (2 * position + 1 - 4) * new_lsb)"

definition v1_FromFace :: "int \<Rightarrow> uint64" where
  "v1_FromFace face = push_bit v1_kPosBits (word_of_int face) + v1_lsb_for_level 0"

definition v1_FromFacePosLevel :: "int \<Rightarrow> uint64 \<Rightarrow> int \<Rightarrow> uint64" where
  "v1_FromFacePosLevel face pos level =
     v1_parent_level (push_bit v1_kPosBits (word_of_int face) + (pos OR 1)) level"

text \<open>\<open>operator<\<close> of the Primary identifier compares the raw values.\<close>

definition v1_less :: "uint64 \<Rightarrow> uint64 \<Rightarrow> bool" where
  "v1_less x y \<longleftrightarrow> x < y"

section \<open>The Compact identifier: \<open>S2CellId\<close> (s2cell_id.h)\<close>

text \<open>The methods of the Compact class carry the prefix \<open>v2_\<close>, those of the Primary class
  \<open>v1_\<close>, since the two classes share their method names.\<close>

definition kFaceBits :: nat where
  "kFaceBits = 3"

definition kLevelBits :: nat where
  "kLevelBits = 5"

definition kMaxLevel :: int where
  "kMaxLevel = 28"

definition kPathBits :: nat where
  "kPathBits = 64 - kFaceBits - kLevelBits"

definition kLevelMask :: uint64 where
  "kLevelMask = push_bit kLevelBits 1 - 1"

text \<open>The source writes the marker of the face-0 root cell,
  \<open>1ULL << (kLevelBits + kPathBits - 1)\<close>, in full at each use.\<close>

definition root_marker :: uint64 where
  "root_marker = push_bit (kLevelBits + kPathBits - 1) 1"

definition v2_None :: uint64 where
  "v2_None = 0"

definition v2_face :: "uint64 \<Rightarrow> int" where
  "v2_face new_id =
     (if new_id = root_marker then 0
      else uint (drop_bit (64 - kFaceBits) new_id))"

definition v2_level :: "uint64 \<Rightarrow> int" where
  "v2_level new_id =
     (if new_id = root_marker then 0
      else uint (new_id AND kLevelMask))"

definition v2_path :: "uint64 \<Rightarrow> uint64" where
  "v2_path new_id =
     (let l = v2_level new_id in
      if l = 0 then 0
      else
        let mask = push_bit kPathBits 1 - 1;
            raw_path = drop_bit kLevelBits new_id AND mask
        in if 0 < l \<and> l \<le> kMaxLevel
           then (let shift_bits = l * 2;
                     valid_path_mask = push_bit (nat shift_bits) 1 - 1
                 in raw_path AND valid_path_mask)
           else raw_path)"

definition v2_is_valid :: "uint64 \<Rightarrow> bool" where
  "v2_is_valid new_id =
     (if new_id = 0 then False
      else
        let f = uint (drop_bit (64 - kFaceBits) new_id);
            l = uint (new_id AND kLevelMask)
        in if l = 0 \<and> f = 0 \<and> new_id = root_marker then True
           else if f < 0 \<or> 6 \<le> f then False
           else if l < 0 \<or> kMaxLevel < l then False
           else if l = 0 then True
           else
             let mask = push_bit kPathBits 1 - 1;
                 current_path = drop_bit kLevelBits new_id AND mask
             in if 0 < l
                then (let used_bits = l * 2
                      in if used_bits < int kPathBits
                         then (let high_bits_mask = NOT (push_bit (nat used_bits) 1 - 1)
                               in if current_path AND high_bits_mask \<noteq> 0 then False else True)
                         else True)
                else True)"

text \<open>\<open>parent()\<close>.\<close>

definition v2_parent :: "uint64 \<Rightarrow> uint64" where
  "v2_parent new_id =
     (if \<not> v2_is_valid new_id then v2_None
      else if v2_level new_id = 0 then v2_None
      else
        let parent_level = v2_level new_id - 1;
            parent_path = drop_bit 2 (v2_path new_id);
            parent_id = push_bit (64 - kFaceBits) (word_of_int (v2_face new_id))
                        OR push_bit kLevelBits parent_path
                        OR word_of_int parent_level
        in if parent_id = 0 then root_marker else parent_id)"

definition v2_child :: "uint64 \<Rightarrow> int \<Rightarrow> uint64" where
  "v2_child new_id position =
     (if \<not> v2_is_valid new_id then v2_None
      else if position < 0 \<or> 4 \<le> position then v2_None
      else if kMaxLevel \<le> v2_level new_id then v2_None
      else
        let child_level = v2_level new_id + 1;
            child_path = push_bit 2 (v2_path new_id) OR word_of_int position
        in push_bit (64 - kFaceBits) (word_of_int (v2_face new_id))
           OR push_bit kLevelBits child_path
           OR word_of_int child_level)"

definition v2_child_position :: "uint64 \<Rightarrow> int" where
  "v2_child_position new_id =
     (if \<not> v2_is_valid new_id then - 1
      else if v2_level new_id = 0 then - 1
      else uint (v2_path new_id AND 3))"

section \<open>The conversion layer\<close>

text \<open>
  \<open>ConvertFromOldFormat\<close>, first loop: walk from the cell to its face cell, pushing each
  child position on \<open>path_stack\<close>. The \<open>return 0\<close> inside the loop is the result
  \<open>None\<close>. Each step lowers \<open>level()\<close> by one whatever the bits are, so the loop ends:
  the termination proof follows the lemmas on the lowest set bit.
\<close>

function collect_path :: "uint64 \<Rightarrow> int list \<Rightarrow> (uint64 \<times> int list) option" where
  "collect_path current path_stack =
     (if 0 < v1_level current
      then (let child_pos = v1_child_position current
            in if child_pos < 0 \<or> 4 \<le> child_pos then None
               else collect_path (v1_parent current) (path_stack @ [child_pos]))
      else Some (current, path_stack))"
  by pat_completeness auto
text \<open>Second loop: \<open>for (i = size - 1; i >= 0; --i) path = (path << 2) | path_stack[i]\<close>.\<close>

definition pack_path :: "int list \<Rightarrow> uint64" where
  "pack_path path_stack =
     foldl (\<lambda>path child_pos. push_bit 2 path OR word_of_int child_pos) 0 (rev path_stack)"

definition ConvertFromOldFormat :: "uint64 \<Rightarrow> uint64" where
  "ConvertFromOldFormat old_id =
     (if \<not> v1_is_valid old_id then 0
      else
        let face = v1_face old_id; level = v1_level old_id
        in if kMaxLevel < level then 0
           else if face < 0 \<or> 6 \<le> face then 0
           else if level = 0
           then (let result = push_bit (64 - kFaceBits) (word_of_int face) OR 0
                 in if result = 0 then root_marker else result)
           else
             (case collect_path old_id [] of
                None \<Rightarrow> 0
              | Some (current, path_stack) \<Rightarrow>
                  if v1_face current \<noteq> face then 0
                  else push_bit (64 - kFaceBits) (word_of_int face)
                       OR push_bit kLevelBits (pack_path path_stack)
                       OR word_of_int level))"

text \<open>\<open>ConvertToOldFormat\<close>: the loop \<open>for (i = 0; i < level; ++i)\<close> descends from the
  face cell; each early \<open>return OriginalS2CellId::None()\<close> is the value \<open>v1_None\<close>.\<close>

function descend :: "uint64 \<Rightarrow> uint64 \<Rightarrow> int \<Rightarrow> int \<Rightarrow> uint64" where
  "descend result path level i =
     (if i < level
      then (let child_pos = uint (drop_bit (nat (2 * (level - 1 - i))) path AND 3)
            in if child_pos < 0 \<or> 4 \<le> child_pos then v1_None
               else (let result' = v1_child result child_pos
                     in if \<not> v1_is_valid result' then v1_None
                        else descend result' path level (i + 1)))
      else result)"
  by pat_completeness auto
termination
  by (relation "measure (\<lambda>(result, path, level, i). nat (level - i))") simp_all

declare descend.simps [simp del]

definition ConvertToOldFormat :: "uint64 \<Rightarrow> uint64" where
  "ConvertToOldFormat new_id =
     (if new_id = 0 then v1_None
      else if new_id = root_marker then v1_FromFace 0
      else
        let face = uint (drop_bit (64 - kFaceBits) new_id);
            level = uint (new_id AND kLevelMask)
        in if face < 0 \<or> 6 \<le> face then v1_None
           else if level < 0 \<or> kMaxLevel < level then v1_None
           else if level = 0 then v1_FromFace face
           else
             (let result = v1_FromFace face;
                  path = drop_bit kLevelBits new_id AND (push_bit kPathBits 1 - 1)
              in descend result path level 0))"

text \<open>\<open>operator<\<close> of the Compact identifier delegates to the Primary comparison.\<close>

definition v2_less :: "uint64 \<Rightarrow> uint64 \<Rightarrow> bool" where
  "v2_less x other \<longleftrightarrow> v1_less (ConvertToOldFormat x) (ConvertToOldFormat other)"

text \<open>The factories \<open>FromFaceLevel\<close> and \<open>FromFace\<close>; the constructor from a Primary
  identifier is \<open>ConvertFromOldFormat\<close>.\<close>

definition v2_FromFaceLevel :: "int \<Rightarrow> int \<Rightarrow> uint64" where
  "v2_FromFaceLevel face level =
     (if face < 0 \<or> 5 < face \<or> level < 0 \<or> kMaxLevel < level then v2_None
      else if level = 0
      then (let id = push_bit (64 - kFaceBits) (word_of_int face) OR word_of_int level
            in if id = 0 then root_marker else id)
      else (let old_id = v1_FromFacePosLevel face 0 level
            in if \<not> v1_is_valid old_id then v2_None
               else ConvertFromOldFormat old_id))"

definition v2_FromFace :: "int \<Rightarrow> uint64" where
  "v2_FromFace face = ConvertFromOldFormat (v1_FromFace face)"

text \<open>
  \<open>parent(int target_level)\<close>. Its loop \<open>while (current.level() > target_level)\<close> is a
  partial function of the two variables: that it returns is a theorem, not an assumption.
\<close>

partial_function (option) parent_loop :: "uint64 \<Rightarrow> int \<Rightarrow> uint64 option" where
  "parent_loop current target_level =
     (if target_level < v2_level current
      then parent_loop (v2_parent current) target_level
      else Some current)"

declare parent_loop.simps [code]

definition v2_parent_level :: "uint64 \<Rightarrow> int \<Rightarrow> uint64 option" where
  "v2_parent_level new_id target_level =
     (if target_level < 0 \<or> kMaxLevel < target_level then Some v2_None
      else if v2_level new_id \<le> target_level then Some new_id
      else if 5 < v2_level new_id - target_level
      then (let old_format = ConvertToOldFormat new_id;
                parent_old = v1_parent_level old_format target_level
            in Some (ConvertFromOldFormat parent_old))
      else parent_loop new_id target_level)"

text \<open>
  \<open>FromToken\<close>: \<open>OriginalS2CellId::FromToken\<close> is declared in s2cell_id_v1.h and defined
  outside the sources, so the parser is a parameter here.
\<close>

definition v2_FromToken :: "(string \<Rightarrow> uint64) \<Rightarrow> string \<Rightarrow> uint64" where
  "v2_FromToken v1_FromToken token =
     (let old_id = v1_FromToken token
      in if \<not> v1_is_valid old_id then v2_None
         else (let old_id' = (if kMaxLevel < v1_level old_id
                              then v1_parent_level old_id kMaxLevel else old_id)
               in ConvertFromOldFormat old_id'))"

text \<open>
  The other callers that cut a Primary identifier down to level 28 before the conversion.
  The Primary constructor from a point, \<open>OriginalS2CellId::FromDebugString\<close> and
  \<open>OriginalS2CellId::Decode\<close> are defined outside the sources and are parameters here;
  \<open>Decode\<close> returns the success flag and the new value of \<open>new_id_\<close>.
\<close>

definition v2_FromPoint :: "('point \<Rightarrow> uint64) \<Rightarrow> 'point \<Rightarrow> uint64" where
  "v2_FromPoint v1_of_point point =
     (let old_id = v1_of_point point
      in if kMaxLevel < v1_level old_id
         then ConvertFromOldFormat (v1_parent_level old_id kMaxLevel)
         else ConvertFromOldFormat old_id)"

definition v2_FromDebugString :: "(string \<Rightarrow> uint64) \<Rightarrow> string \<Rightarrow> uint64" where
  "v2_FromDebugString v1_FromDebugString str =
     (let old_id = v1_FromDebugString str
      in if \<not> v1_is_valid old_id then v2_None
         else (let old_id' = (if kMaxLevel < v1_level old_id
                              then v1_parent_level old_id kMaxLevel else old_id)
               in ConvertFromOldFormat old_id'))"

definition v2_Decode :: "('decoder \<Rightarrow> uint64 option) \<Rightarrow> 'decoder \<Rightarrow> uint64 \<Rightarrow> bool \<times> uint64" where
  "v2_Decode v1_Decode decoder new_id =
     (case v1_Decode decoder of
        Some old_id \<Rightarrow>
          (let old_id' = (if kMaxLevel < v1_level old_id
                          then v1_parent_level old_id kMaxLevel else old_id)
           in (True, ConvertFromOldFormat old_id'))
      | None \<Rightarrow> (False, new_id))"

section \<open>The string form of the Compact identifier\<close>

text \<open>\<open>std::to_string(int)\<close>: the decimal digits, after a minus sign for a negative value.\<close>

definition digit_char :: "nat \<Rightarrow> char" where
  "digit_char d = char_of (of_char CHR ''0'' + d)"

fun decimal :: "nat \<Rightarrow> string" where
  "decimal n = (if n div 10 = 0 then [] else decimal (n div 10)) @ [digit_char (n mod 10)]"

definition to_string :: "int \<Rightarrow> string" where
  "to_string i = (if 0 \<le> i then decimal (nat i) else CHR ''-'' # decimal (nat (- i)))"

text \<open>
  \<open>std::stoi(str)\<close> in base 10: leading white space is skipped, one sign is accepted, the
  longest run of digits is read and what follows is ignored. \<open>None\<close> stands for the two
  exceptions, \<open>std::invalid_argument\<close> (no digit) and \<open>std::out_of_range\<close> (the value does
  not fit an \<open>int\<close>), both caught by \<open>FromString\<close>.
\<close>

definition isspace :: "char \<Rightarrow> bool" where
  "isspace c \<longleftrightarrow> c = CHR '' '' \<or> ((9 :: nat) \<le> of_char c \<and> of_char c \<le> (13 :: nat))"

definition isdigit :: "char \<Rightarrow> bool" where
  "isdigit c \<longleftrightarrow> (48 :: nat) \<le> of_char c \<and> of_char c \<le> (57 :: nat)"

definition stoi :: "string \<Rightarrow> int option" where
  "stoi str =
     (let s1 = dropWhile isspace str;
          negative = (case s1 of [] \<Rightarrow> False | c # cs \<Rightarrow> c = CHR ''-'');
          s2 = (case s1 of [] \<Rightarrow> []
                | c # cs \<Rightarrow> if c = CHR ''-'' \<or> c = CHR ''+'' then cs else s1);
          ds = takeWhile isdigit s2
      in if ds = [] then None
         else (let v = foldl (\<lambda>acc c. 10 * acc + (int (of_char c) - 48)) 0 ds;
                   r = (if negative then - v else v)
               in if r < - (2 ^ 31) \<or> 2 ^ 31 - 1 < r then None else Some r))"

text \<open>\<open>str.find('/')\<close>, with \<open>None\<close> for \<open>std::string::npos\<close>.\<close>

fun find_char :: "char \<Rightarrow> string \<Rightarrow> nat option" where
  "find_char c [] = None"
| "find_char c (x # xs) = (if x = c then Some 0 else map_option Suc (find_char c xs))"

text \<open>\<open>ToString\<close>: the loop \<open>for (i = l - 1; i >= 0; --i)\<close> appends one digit per level.\<close>

fun path_digits :: "uint64 \<Rightarrow> nat \<Rightarrow> string" where
  "path_digits current_path 0 = []"
| "path_digits current_path (Suc i) =
     char_of (48 + unat (drop_bit (2 * i) current_path AND 3)) # path_digits current_path i"

definition v2_ToString :: "uint64 \<Rightarrow> string" where
  "v2_ToString new_id =
     (if \<not> v2_is_valid new_id then ''INVALID''
      else
        let f = v2_face new_id; l = v2_level new_id; result = to_string f
        in if l = 0 then result
           else result @ ''/'' @ path_digits (v2_path new_id) (nat l))"

text \<open>\<open>FromString\<close>: the loop over \<open>path_str\<close> returns the invalid identifier at the first
  character outside \<open>'0'..'3'\<close>. The loop reads the characters \<open>path_str[0]\<close> to
  \<open>path_str[level - 1]\<close>, and none when \<open>level\<close> is negative.

  \<open>int level = static_cast<int>(path_str.length())\<close> narrows a 64-bit \<open>size_t\<close> to a 32-bit
  \<open>int\<close>: the value is the length modulo \<open>2^32\<close>, read as a signed number.
  \<open>static_cast<uint64_t>(level)\<close> extends the sign.\<close>

definition narrow_int :: "nat \<Rightarrow> int" where
  "narrow_int n = sint (word_of_nat n :: 32 word)"

fun parse_path :: "string \<Rightarrow> uint64 \<Rightarrow> uint64 option" where
  "parse_path [] path = Some path"
| "parse_path (c # cs) path =
     (if of_char c < (48 :: nat) \<or> (51 :: nat) < of_char c then None
      else parse_path cs (push_bit 2 path OR word_of_nat (of_char c - 48)))"

definition v2_FromString :: "string \<Rightarrow> uint64" where
  "v2_FromString str =
     (if str = [] then v2_None
      else
        let slash_pos = find_char CHR ''/'' str;
            face_str = (case slash_pos of None \<Rightarrow> str | Some n \<Rightarrow> take n str)
        in case stoi face_str of
             None \<Rightarrow> v2_None
           | Some face \<Rightarrow>
               if face < 0 \<or> 5 < face then v2_None
               else
                 (case slash_pos of
                    None \<Rightarrow> v2_FromFaceLevel face 0
                  | Some n \<Rightarrow>
                      let path_str = drop (n + 1) str;
                          level = narrow_int (length path_str)
                      in if level = 0 then v2_FromFaceLevel face 0
                         else if kMaxLevel < level then v2_None
                         else
                           (case parse_path (take (nat level) path_str) 0 of
                              None \<Rightarrow> v2_None
                            | Some path \<Rightarrow>
                                push_bit (64 - kFaceBits) (word_of_int face)
                                OR push_bit kLevelBits path
                                OR word_of_int level)))"

section \<open>Definitions used in the statements and proofs\<close>

text \<open>
  The conditions on the three fields of a Compact identifier: face below 6, level at most
  28, no path bit at or above position \<open>2 * level\<close>; or the marker of the face-0 root cell.
\<close>

definition field_conditions :: "uint64 \<Rightarrow> bool" where
  "field_conditions r \<longleftrightarrow>
     r = root_marker
     \<or> (uint (drop_bit (64 - kFaceBits) r) < 6
        \<and> uint (r AND kLevelMask) \<le> kMaxLevel
        \<and> drop_bit (nat (2 * uint (r AND kLevelMask)))
             (drop_bit kLevelBits r AND (push_bit kPathBits 1 - 1)) = 0)"

definition none_or_valid :: "uint64 \<Rightarrow> bool" where
  "none_or_valid r \<longleftrightarrow> r = v2_None \<or> (v2_is_valid r \<and> field_conditions r)"

text \<open>A proof device, not a function of the source: the identifier whose lowest set bit
  is bit \<open>n\<close>, with the bits \<open>y\<close> above it.\<close>

definition cell_id :: "nat \<Rightarrow> uint64 \<Rightarrow> uint64" where
  "cell_id n y = push_bit (Suc n) y OR push_bit n 1"

text \<open>Proof devices: one step of the packing loops, and the three fields put together.\<close>

definition path_step :: "uint64 \<Rightarrow> int \<Rightarrow> uint64" where
  "path_step p d = push_bit 2 p OR word_of_int d"

definition compose_id :: "int \<Rightarrow> uint64 \<Rightarrow> int \<Rightarrow> uint64" where
  "compose_id f p l = push_bit 61 (word_of_int f) OR push_bit 5 p OR word_of_int l"

definition digits_ok :: "int list \<Rightarrow> bool" where
  "digits_ok ds \<longleftrightarrow> list_all (\<lambda>d. 0 \<le> d \<and> d < 4) ds"

text \<open>A proof device: the identifiers built from three fields in range.\<close>

definition canonical :: "uint64 \<Rightarrow> bool" where
  "canonical r \<longleftrightarrow>
     r = 0 \<or> r = root_marker
     \<or> (\<exists>f p l. r = compose_id f p l \<and> 0 \<le> f \<and> f < 6 \<and> 0 \<le> l \<and> l \<le> 28
            \<and> (\<forall>j. bit p j \<longrightarrow> j < nat (2 * l)))"

section \<open>The lowest set bit\<close>

lemma lowbit_isolate:
  fixes x :: "'a::len word"
  assumes b: "bit x n" and z: "take_bit n x = 0"
  shows "x AND (NOT x + 1) = 2 ^ n"
proof -
  define y where "y = drop_bit (Suc n) x"
  have nlt: "n < LENGTH('a)" using b by (simp add: bit_imp_le_length)
  have low: "\<not> bit x k" if "k < n" for k
  proof -
    have "bit (take_bit n x) k = bit x k" using that by (simp add: bit_simps)
    then show ?thesis by (simp add: z)
  qed
  have x_or: "x = push_bit (Suc n) y OR 2 ^ n"
  proof (rule bit_eqI)
    fix k assume "possible_bit TYPE('a word) k"
    show "bit x k = bit (push_bit (Suc n) y OR 2 ^ n) k"
      using low [of k] b nlt
      by (cases "k < n"; cases "k = n")
         (auto simp: bit_simps y_def bit_imp_le_length simp del: push_bit_Suc drop_bit_Suc)
  qed
  have disj: "push_bit (Suc n) y AND 2 ^ n = 0"
    by (rule bit_eqI) (auto simp: bit_simps simp del: push_bit_Suc)
  have x_eq: "x = push_bit (Suc n) y + 2 ^ n"
    using x_or disjunctive_add_eq_or [OF disj] by simp
  have "x - 1 = push_bit (Suc n) y + mask n"
    by (subst x_eq) (simp add: mask_eq_exp_minus_1)
  also have "\<dots> = push_bit (Suc n) y OR mask n"
    by (rule disjunctive_add_eq_or, rule bit_eqI) (auto simp: bit_simps simp del: push_bit_Suc)
  finally have xm: "x - 1 = push_bit (Suc n) y OR mask n" .
  show ?thesis
  proof (rule bit_eqI)
    fix k assume "possible_bit TYPE('a word) k"
    have "bit (x AND (NOT x + 1)) k \<longleftrightarrow> bit x k \<and> \<not> bit (x - 1) k"
      by (metis bit_and_iff bit_minus_iff minus_eq_not_plus_1 bit_imp_possible_bit)
    also have "\<dots> \<longleftrightarrow> k = n"
      apply (subst xm) apply (subst x_or)
      using nlt by (auto simp: bit_simps simp del: push_bit_Suc)
    finally show "bit (x AND (NOT x + 1)) k \<longleftrightarrow> bit (2 ^ n :: 'a word) k"
      using nlt by (auto simp: bit_simps)
  qed
qed

lemma countr_zero_le: "countr_zero x \<le> 64"
  using length_takeWhile_le [of "\<lambda>n. \<not> bit x n" "[0..<64]"]
  by (simp add: countr_zero_def)

lemma countr_zero_low: "k < countr_zero x \<Longrightarrow> \<not> bit x k"
proof -
  assume k: "k < countr_zero x"
  let ?P = "\<lambda>n. \<not> bit x n"
  have len: "k < length (takeWhile ?P [0..<64])" using k by (simp add: countr_zero_def)
  then have "takeWhile ?P [0..<64] ! k \<in> set (takeWhile ?P [0..<64])" by (rule nth_mem)
  then have "?P (takeWhile ?P [0..<64] ! k)" by (rule set_takeWhileD [THEN conjunct2])
  moreover have "takeWhile ?P [0..<64] ! k = [0..<64] ! k" using len by (rule takeWhile_nth)
  moreover have "k < 64" using k countr_zero_le [of x] by simp
  ultimately show ?thesis by simp
qed

lemma countr_zero_bit: "countr_zero x < 64 \<Longrightarrow> bit x (countr_zero x)"
proof -
  assume lt: "countr_zero x < 64"
  let ?P = "\<lambda>n. \<not> bit x n"
  have "length (takeWhile ?P [0..<64]) < length [0..<64]" using lt by (simp add: countr_zero_def)
  then have "\<not> ?P ([0..<64] ! length (takeWhile ?P [0..<64]))" by (rule nth_length_takeWhile)
  then show ?thesis using lt by (simp add: countr_zero_def)
qed

lemma countr_zero_64: "countr_zero x = 64 \<longleftrightarrow> x = 0"
proof
  assume c: "countr_zero x = 64"
  show "x = 0"
  proof (rule bit_eqI)
    fix k assume "possible_bit TYPE(64 word) k"
    then have "k < 64" by simp
    then show "bit x k = bit (0 :: 64 word) k" using countr_zero_low [of k x] c by simp
  qed
next
  assume "x = 0"
  then show "countr_zero x = 64" by (simp add: countr_zero_def takeWhile_eq_all_conv [THEN iffD2])
qed

lemma countr_zero_take_bit: "take_bit (countr_zero x) x = 0"
  by (rule bit_eqI) (auto simp: bit_simps countr_zero_low)

lemma countr_zero_unique:
  assumes "bit x n" and "take_bit n x = 0"
  shows "countr_zero x = n"
proof -
  have low: "\<not> bit x k" if "k < n" for k
  proof -
    have "bit (take_bit n x) k = bit x k" using that by (simp add: bit_simps)
    then show ?thesis by (simp add: assms)
  qed
  have "\<not> n < countr_zero x" using countr_zero_low [of n x] assms by blast
  moreover have "\<not> countr_zero x < n"
  proof
    assume lt: "countr_zero x < n"
    have "n < 64" using assms(1) bit_imp_le_length [of x n] by simp
    then have "bit x (countr_zero x)" using lt by (intro countr_zero_bit) simp
    then show False using low [OF lt] by simp
  qed
  ultimately show ?thesis by simp
qed

lemma v1_lsb_eq: "x \<noteq> 0 \<Longrightarrow> v1_lsb x = 2 ^ countr_zero x"
proof -
  assume "x \<noteq> 0"
  then have "countr_zero x < 64" using countr_zero_64 [of x] countr_zero_le [of x] by simp
  then have "bit x (countr_zero x)" by (rule countr_zero_bit)
  then show ?thesis unfolding v1_lsb_def
    by (rule lowbit_isolate) (rule countr_zero_take_bit)
qed

section \<open>Identifiers by their marker bit\<close>

lemma bit_cell_id:
  "bit (cell_id n y) k \<longleftrightarrow> k < 64 \<and> (k = n \<or> (Suc n \<le> k \<and> bit y (k - Suc n)))"
  by (auto simp: cell_id_def bit_simps simp del: push_bit_Suc)

lemma cell_id_decompose:
  assumes "x \<noteq> 0"
  shows "x = cell_id (countr_zero x) (drop_bit (Suc (countr_zero x)) x)"
proof (rule bit_eqI)
  fix k assume "possible_bit TYPE(64 word) k"
  then have k: "k < 64" by simp
  have lt: "countr_zero x < 64" using assms countr_zero_64 [of x] countr_zero_le [of x] by simp
  show "bit x k = bit (cell_id (countr_zero x) (drop_bit (Suc (countr_zero x)) x)) k"
    using k countr_zero_low [of k x] countr_zero_bit [OF lt]
    by (cases "k < countr_zero x"; cases "k = countr_zero x")
       (auto simp: bit_cell_id bit_simps simp del: drop_bit_Suc)
qed

lemma countr_zero_cell_id: "n < 64 \<Longrightarrow> countr_zero (cell_id n y) = n"
  by (rule countr_zero_unique) (auto simp: bit_cell_id bit_simps intro!: bit_eqI)

lemma cell_id_neq_0: "n < 64 \<Longrightarrow> cell_id n y \<noteq> 0"
  using countr_zero_cell_id [of n y] countr_zero_64 [of "cell_id n y"] by auto

lemma v1_lsb_cell_id: "n < 64 \<Longrightarrow> v1_lsb (cell_id n y) = 2 ^ n"
  by (simp add: v1_lsb_eq cell_id_neq_0 countr_zero_cell_id)

lemma cell_id_add: "cell_id n y = push_bit (Suc n) y + 2 ^ n"
proof -
  have "push_bit (Suc n) y AND 2 ^ n = 0"
    by (rule bit_eqI) (auto simp: bit_simps simp del: push_bit_Suc)
  then show ?thesis
    unfolding cell_id_def by (simp add: disjunctive_add_eq_or push_bit_eq_mult del: push_bit_Suc)
qed

lemma bit_clear_below_set:
  fixes x :: uint64
  assumes "m < 64"
  shows "bit ((x AND (NOT (2 ^ m) + 1)) OR 2 ^ m) k \<longleftrightarrow> k < 64 \<and> (k = m \<or> (m < k \<and> bit x k))"
proof -
  have neg: "NOT (2 ^ m :: uint64) + 1 = NOT (mask m)"
    unfolding minus_eq_not_plus_1 [symmetric] minus_exp_eq_not_mask ..
  show ?thesis
    unfolding neg using assms
    by (auto simp: bit_and_iff bit_or_iff bit_not_iff bit_mask_iff bit_exp_iff bit_imp_le_length)
qed

lemma v1_parent_cell_id:
  assumes m: "m = n + 2" and lt: "m < 64"
  shows "v1_parent (cell_id n y) = cell_id m (drop_bit 2 y)"
proof -
  have n: "n < 64" using assms by simp
  have nl: "push_bit 2 (v1_lsb (cell_id n y)) = 2 ^ m"
    by (simp add: v1_lsb_cell_id [OF n] push_bit_eq_mult m)
  show ?thesis
    unfolding v1_parent_def Let_def nl
  proof (rule bit_eqI)
    fix k
    show "bit (cell_id n y AND NOT (2 ^ m) + 1 OR 2 ^ m) k = bit (cell_id m (drop_bit 2 y)) k"
    proof -
      have idx: "Suc (Suc (k - Suc m)) = k - Suc n" if "Suc m \<le> k"
        using that m by simp
      have "m < k \<Longrightarrow> Suc n \<le> k" and "n \<noteq> m" and "m < k \<longleftrightarrow> Suc m \<le> k"
        using m by auto
      then show ?thesis
        unfolding bit_clear_below_set [OF lt] bit_cell_id
        by (auto simp: bit_drop_bit_eq idx)
    qed
  qed
qed

lemma v1_parent_level_cell_id:
  assumes m: "m = nat (2 * (v1_kMaxLevel - lvl))" and lt: "m < 64" and le: "n \<le> m"
  shows "v1_parent_level (cell_id n y) lvl = cell_id m (drop_bit (m - n) y)"
  unfolding v1_parent_level_def Let_def v1_lsb_for_level_def m [symmetric] push_bit_of_1
proof (rule bit_eqI)
  fix k
  show "bit (cell_id n y AND NOT (2 ^ m) + 1 OR 2 ^ m) k = bit (cell_id m (drop_bit (m - n) y)) k"
  proof -
    have idx: "m - n + (k - Suc m) = k - Suc n" if "Suc m \<le> k"
      using that le by simp
    have "m < k \<Longrightarrow> Suc n \<le> k" and "m < k \<longleftrightarrow> Suc m \<le> k"
      using le by auto
    then show ?thesis
      unfolding bit_clear_below_set [OF lt] bit_cell_id
      using le by (auto simp: bit_drop_bit_eq idx)
  qed
qed

lemma bit_int_pos:
  fixes c :: int
  assumes "0 \<le> c" and "c < 4" and b: "bit c j"
  shows "j < 2"
proof -
  have "take_bit 2 c = c" using assms by (simp add: take_bit_int_eq_self)
  then have "bit (take_bit 2 c) j" using b by simp
  then show "j < 2" by (simp add: bit_take_bit_iff)
qed

lemma bit_word_of_pos:
  assumes "0 \<le> c" and "c < 4"
  shows "bit (word_of_int c :: uint64) j \<Longrightarrow> j < 2"
  using bit_int_pos [OF assms] by (simp add: bit_word_of_int_iff)

lemma drop_bit_2_exp:
  assumes "2 \<le> n" and "n < 64"
  shows "drop_bit 2 (2 ^ n :: uint64) = 2 ^ (n - 2)"
proof (rule bit_eqI)
  fix k
  show "bit (drop_bit 2 (2 ^ n :: uint64)) k = bit (2 ^ (n - 2) :: uint64) k"
    using assms by (auto simp add: bit_drop_bit_eq bit_exp_iff)
qed

lemma v1_child_cell_id:
  assumes c: "0 \<le> c" "c < 4" and n: "2 \<le> n" "n < 64"
  shows "v1_child (cell_id n y) c = cell_id (n - 2) (push_bit 2 y OR word_of_int c)"
proof -
  let ?w = "word_of_int c :: uint64"
  have lsb: "drop_bit 2 (v1_lsb (cell_id n y)) = 2 ^ (n - 2)"
    by (simp only: v1_lsb_cell_id [OF n(2)] drop_bit_2_exp [OF n])
  have disj: "push_bit 2 y AND ?w = 0"
    by (rule bit_eqI) (auto simp: bit_simps dest: bit_int_pos [OF c])
  have pw: "(2 :: uint64) ^ n = 4 * 2 ^ (n - 2)" and pw1: "(2 :: uint64) ^ Suc n = 8 * 2 ^ (n - 2)"
   and pw2: "(2 :: uint64) ^ Suc (n - 2) = 2 * 2 ^ (n - 2)"
  proof -
    obtain k where k: "n = k + 2" using n(1) by (metis add.commute le_Suc_ex)
    show "(2 :: uint64) ^ n = 4 * 2 ^ (n - 2)" "(2 :: uint64) ^ Suc n = 8 * 2 ^ (n - 2)"
      "(2 :: uint64) ^ Suc (n - 2) = 2 * 2 ^ (n - 2)"
      by (simp_all add: k)
  qed
  have "cell_id (n - 2) (push_bit 2 y OR ?w) = push_bit (Suc (n - 2)) (push_bit 2 y + ?w) + 2 ^ (n - 2)"
    by (simp only: cell_id_add disjunctive_add_eq_or [OF disj])
  also have "\<dots> = push_bit (Suc n) y + 2 ^ n + word_of_int (2 * c + 1 - 4) * 2 ^ (n - 2)"
    unfolding push_bit_eq_mult pw pw1 pw2 by (simp add: algebra_simps)
  finally have "cell_id (n - 2) (push_bit 2 y OR ?w)
      = cell_id n y + word_of_int (2 * c + 1 - 4) * 2 ^ (n - 2)"
    by (simp only: cell_id_add [of n y])
  moreover have "v1_child (cell_id n y) c = cell_id n y + word_of_int (2 * c + 1 - 4) * 2 ^ (n - 2)"
    by (simp only: v1_child_def Let_def lsb)
  ultimately show ?thesis by simp
qed

section \<open>Validity and ranges of the Primary identifier\<close>

lemma bit_marker_mask_aux:
  "\<forall>n \<in> set [0..<64]. bit (0x1555555555555555 :: uint64) n = (even n \<and> n \<le> 60)"
  by code_simp

lemma bit_marker_mask:
  "bit (0x1555555555555555 :: uint64) n \<longleftrightarrow> even n \<and> n \<le> 60"
proof (cases "n < 64")
  case True
  then show ?thesis using bit_marker_mask_aux by simp
next
  case False
  then show ?thesis by (auto simp: bit_imp_le_length dest: bit_imp_le_length)
qed

lemma v1_is_valid_iff:
  "v1_is_valid x \<longleftrightarrow>
     x \<noteq> 0 \<and> even (countr_zero x) \<and> countr_zero x \<le> 60 \<and> v1_face x < 6"
proof (cases "x = 0")
  case True
  then show ?thesis by (simp add: v1_is_valid_def v1_lsb_def)
next
  case False
  have "(2 ^ countr_zero x AND (0x1555555555555555 :: uint64)) \<noteq> 0
      \<longleftrightarrow> bit (0x1555555555555555 :: uint64) (countr_zero x)"
    by (metis and.commute and_exp_eq_0_iff_not_bit)
  then have "(v1_lsb x AND 0x1555555555555555) \<noteq> 0
      \<longleftrightarrow> even (countr_zero x) \<and> countr_zero x \<le> 60"
    by (simp only: v1_lsb_eq [OF False] bit_marker_mask)
  then show ?thesis
    using False unfolding v1_is_valid_def v1_kNumFaces_def by blast
qed

lemma unat_exp_64: "n < 64 \<Longrightarrow> unat (2 ^ n :: uint64) = 2 ^ n"
proof -
  assume n: "n < 64"
  have "unat (word_of_nat (2 ^ n) :: uint64) = 2 ^ n mod 2 ^ 64"
    by (simp only: unat_of_nat len_of_numeral_defs) simp
  moreover have "(2::nat) ^ n < 2 ^ 64" using n by (intro power_strict_increasing) simp_all
  ultimately show ?thesis by simp
qed

lemma v1_face_eq: "v1_face x = int (unat x div 2 ^ 61)"
proof -
  have "unat (drop_bit 61 x) = unat x div 2 ^ 61"
    by (metis drop_bit_eq_div unat_drop_bit_eq)
  then have "uint (drop_bit 61 x) = int (unat x div 2 ^ 61)"
    by (metis of_nat_unat)
  then show ?thesis
    by (simp add: v1_face_def v1_kPosBits_def v1_kMaxLevel_def kMaxCellLevel_def)
qed

lemma v1_face_bound: "v1_face x < 6 \<Longrightarrow> unat x < 6 * 2 ^ 61"
proof -
  assume "v1_face x < 6"
  then have "unat x div 2 ^ 61 < 6" by (simp add: v1_face_eq)
  then show ?thesis by simp
qed

lemma v1_lsb_le: "v1_lsb x \<le> x"
  unfolding v1_lsb_def by (rule word_and_le2)

lemma v1_valid_lsb_bound:
  assumes "v1_is_valid x"
  shows "v1_lsb x \<noteq> 0" and "unat (v1_lsb x) \<le> 2 ^ 60"
proof -
  from assms have nz: "x \<noteq> 0" and le: "countr_zero x \<le> 60"
    by (simp_all add: v1_is_valid_iff)
  have eq: "v1_lsb x = 2 ^ countr_zero x" using nz by (rule v1_lsb_eq)
  have u: "unat (v1_lsb x) = 2 ^ countr_zero x"
    using le by (simp add: eq unat_exp_64)
  then have "unat (v1_lsb x) \<noteq> 0" by simp
  then show "v1_lsb x \<noteq> 0" by (metis unat_0)
  have "(2::nat) ^ countr_zero x \<le> 2 ^ 60" using le by (intro power_increasing) simp_all
  then show "unat (v1_lsb x) \<le> 2 ^ 60" using u by simp
qed

lemma v1_range_order:
  assumes "v1_is_valid x"
  shows "v1_range_min x \<le> x" and "x \<le> v1_range_max x"
proof -
  note lsb = v1_valid_lsb_bound [OF assms]
  have pos: "0 < unat (v1_lsb x)" using lsb(1) by (simp add: unat_gt_0)
  have um: "unat (v1_lsb x - 1) = unat (v1_lsb x) - 1" using lsb(1) by (simp add: unat_minus_one)
  have m1: "v1_lsb x - 1 < v1_lsb x" using pos um by (simp add: word_less_nat_alt)
  then have le: "v1_lsb x - 1 \<le> x" using v1_lsb_le [of x] by simp
  show "v1_range_min x \<le> x" unfolding v1_range_min_def using le by (rule word_sub_le)
  have "unat (v1_lsb x - 1) < 2 ^ 60" using um pos lsb(2) by simp
  moreover have "unat x < 6 * 2 ^ 61" using assms v1_face_bound [of x] by (simp add: v1_is_valid_iff)
  ultimately have "unat x + unat (v1_lsb x - 1) < 2 ^ 64" by simp
  then show "x \<le> v1_range_max x" unfolding v1_range_max_def by (simp add: no_olen_add_nat)
qed

section \<open>Parent and child of the Primary identifier\<close>

lemma v1_level_cell_id: "n < 64 \<Longrightarrow> v1_level (cell_id n y) = 30 - int (n div 2)"
  by (simp add: v1_level_def countr_zero_cell_id v1_kMaxLevel_def kMaxCellLevel_def)

lemma v1_level_pos_cell:
  assumes "0 < v1_level x"
  obtains y where "x = cell_id (countr_zero x) y" and "countr_zero x \<le> 59"
proof -
  have le: "countr_zero x \<le> 59"
    using assms by (simp add: v1_level_def v1_kMaxLevel_def kMaxCellLevel_def)
  then have "x \<noteq> 0" using countr_zero_64 [of x] by auto
  then have "x = cell_id (countr_zero x) (drop_bit (Suc (countr_zero x)) x)"
    by (rule cell_id_decompose)
  then show ?thesis using le that by blast
qed

lemma v1_level_parent:
  assumes "0 < v1_level x"
  shows "v1_level (v1_parent x) = v1_level x - 1"
proof -
  obtain y where x: "x = cell_id (countr_zero x) y" and le: "countr_zero x \<le> 59"
    using assms by (rule v1_level_pos_cell)
  define n where "n = countr_zero x"
  have p: "v1_parent (cell_id n y) = cell_id (n + 2) (drop_bit 2 y)"
    using le by (intro v1_parent_cell_id) (simp_all add: n_def)
  have "v1_level (v1_parent (cell_id n y)) = v1_level (cell_id n y) - 1"
    unfolding p using le by (simp add: v1_level_cell_id n_def)
  then show ?thesis using x by (simp add: n_def)
qed

lemma v1_level_parent_less:
  "0 < v1_level current \<Longrightarrow> nat (v1_level (v1_parent current)) < nat (v1_level current)"
  by (simp add: v1_level_parent)

text \<open>The first loop of \<open>ConvertFromOldFormat\<close> ends on every input.\<close>

termination collect_path
  by (relation "measure (\<lambda>(current, path_stack). nat (v1_level current))")
     (simp_all add: v1_level_parent)

declare collect_path.simps [simp del]

lemma v1_face_cong:
  assumes "\<And>k. 61 \<le> k \<Longrightarrow> k < 64 \<Longrightarrow> bit x k = bit x' k"
  shows "v1_face x = v1_face x'"
proof -
  have "drop_bit 61 x = drop_bit 61 x'"
  proof (rule bit_eqI)
    fix k assume "possible_bit TYPE(64 word) k"
    show "bit (drop_bit 61 x) k = bit (drop_bit 61 x') k"
      using assms [of "61 + k"] by (cases "61 + k < 64") (auto simp: bit_drop_bit_eq dest: bit_imp_le_length)
  qed
  then show ?thesis by (simp add: v1_face_def v1_kPosBits_def v1_kMaxLevel_def kMaxCellLevel_def)
qed

lemma v1_valid_cell:
  assumes "v1_is_valid x"
  obtains n y where "x = cell_id n y" and "even n" and "n \<le> 60"
    and "v1_level x = 30 - int (n div 2)" and "countr_zero x = n"
proof -
  from assms have nz: "x \<noteq> 0" and ev: "even (countr_zero x)" and le: "countr_zero x \<le> 60"
    by (simp_all add: v1_is_valid_iff)
  have "x = cell_id (countr_zero x) (drop_bit (Suc (countr_zero x)) x)"
    using nz by (rule cell_id_decompose)
  moreover have "v1_level x = 30 - int (countr_zero x div 2)"
    by (simp add: v1_level_def v1_kMaxLevel_def kMaxCellLevel_def)
  ultimately show ?thesis using ev le that by blast
qed

lemma v1_is_valid_cell_id:
  assumes "n < 64"
  shows "v1_is_valid (cell_id n y) \<longleftrightarrow> even n \<and> n \<le> 60 \<and> v1_face (cell_id n y) < 6"
  using assms by (simp add: v1_is_valid_iff countr_zero_cell_id cell_id_neq_0)

lemma cell_id_cong:
  assumes "\<And>j. j + Suc n < 64 \<Longrightarrow> bit y j = bit y' j"
  shows "cell_id n y = cell_id n y'"
proof (rule bit_eqI)
  fix k assume "possible_bit TYPE(64 word) k"
  then have k: "k < 64" by simp
  show "bit (cell_id n y) k = bit (cell_id n y') k"
    using k assms [of "k - Suc n"] by (auto simp: bit_cell_id)
qed

lemma v1_child_position_cell_id:
  assumes "even n" and "n \<le> 60"
  shows "v1_child_position (cell_id n y) = uint (y AND 3)"
proof -
  have n: "n < 64" using assms by simp
  have sh: "nat (2 * (v1_kMaxLevel - v1_level (cell_id n y)) + 1) = Suc n"
  proof -
    have "2 * (n div 2) = n" using assms(1) by simp
    then have "2 * int (n div 2) + 1 = int (Suc n)" by linarith
    then show ?thesis
      by (simp add: v1_level_cell_id [OF n] v1_kMaxLevel_def kMaxCellLevel_def)
  qed
  have "drop_bit (Suc n) (cell_id n y) AND 3 = y AND 3"
  proof (rule bit_eqI)
    fix k assume "possible_bit TYPE(64 word) k"
    have m: "(3 :: uint64) = mask 2" by (simp add: mask_eq_exp_minus_1)
    show "bit (drop_bit (Suc n) (cell_id n y) AND 3) k = bit (y AND 3) k"
      unfolding m using assms
      by (auto simp: bit_and_iff bit_mask_iff bit_drop_bit_eq bit_cell_id simp del: drop_bit_Suc)
  qed
  then show ?thesis
    by (simp only: v1_child_position_def v1_child_position_level_def sh)
qed

lemma uint_and_3: "0 \<le> uint ((y :: uint64) AND 3) \<and> uint (y AND 3) < 4"
proof -
  have "y AND 3 \<le> 3" by (rule word_and_le1)
  then have "uint (y AND 3) \<le> uint (3 :: uint64)" by (simp add: word_le_def)
  then show ?thesis by simp
qed

lemma word_of_pos_and_3:
  assumes "0 \<le> c" and "c < 4"
  shows "(word_of_int c :: uint64) AND 3 = word_of_int c"
proof (rule bit_eqI)
  fix k assume "possible_bit TYPE(64 word) k"
  have m: "(3 :: uint64) = mask 2" by (simp add: mask_eq_exp_minus_1)
  show "bit ((word_of_int c :: uint64) AND 3) k = bit (word_of_int c :: uint64) k"
    unfolding m using bit_word_of_pos [OF assms, of k] by (auto simp: bit_and_iff bit_mask_iff)
qed

lemma uint_word_of_pos:
  assumes "0 \<le> c" and "c < 4"
  shows "uint (word_of_int c :: uint64) = c"
  using assms by (simp add: uint_word_of_int take_bit_int_eq_self)

lemma bit_digit_append:
  assumes "0 \<le> c" and "c < 4"
  shows "bit (push_bit 2 y OR word_of_int c :: uint64) k \<longleftrightarrow>
           (if k < 2 then bit (word_of_int c :: uint64) k else k < 64 \<and> bit y (k - 2))"
  using bit_word_of_pos [OF assms, of k]
  by (auto simp only: bit_or_iff bit_push_bit_iff possible_bit_word len_of_numeral_defs split: if_splits)

text \<open>A child of a valid cell above the leaf level.\<close>

lemma v1_child_props:
  assumes v: "v1_is_valid x" and l: "v1_level x < 30" and c: "0 \<le> c" "c < 4"
  shows "v1_is_valid (v1_child x c)"
    and "v1_level (v1_child x c) = v1_level x + 1"
    and "v1_face (v1_child x c) = v1_face x"
    and "v1_parent (v1_child x c) = x"
    and "v1_child_position (v1_child x c) = c"
proof -
  obtain n y where x: "x = cell_id n y" and ev: "even n" and le: "n \<le> 60"
    and lv: "v1_level x = 30 - int (n div 2)"
    using v by (rule v1_valid_cell)
  have n2: "2 \<le> n" using l lv by simp
  have n64: "n < 64" using le by simp
  let ?y = "push_bit 2 y OR word_of_int c :: uint64"
  have ch': "v1_child (cell_id n y) c = cell_id (n - 2) ?y"
    using c n2 n64 by (rule v1_child_cell_id)
  then have ch: "v1_child x c = cell_id (n - 2) ?y"
    by (simp only: x)
  have ev2: "even (n - 2)" using ev n2 by simp
  have le2: "n - 2 \<le> 60" "n - 2 < 64" using le by simp_all
  show lvl: "v1_level (v1_child x c) = v1_level x + 1"
  proof -
    obtain k where k: "n = k + 2" using n2 by (metis add.commute le_Suc_ex)
    have "int ((n - 2) div 2) = int (n div 2) - 1" by (simp add: k)
    then show ?thesis unfolding ch lv by (simp add: v1_level_cell_id [OF le2(2)])
  qed
  show fc: "v1_face (v1_child x c) = v1_face x"
    unfolding x ch'
  proof (rule v1_face_cong)
    fix k :: nat assume k: "61 \<le> k" "k < 64"
    have "k - Suc (n - 2) - 2 = k - Suc n" "\<not> k - Suc (n - 2) < 2" "k \<noteq> n - 2" "k \<noteq> n"
      "Suc (n - 2) \<le> k" "Suc n \<le> k" "k - Suc (n - 2) < 64"
      using k le n2 by simp_all
    then show "bit (cell_id (n - 2) ?y) k = bit (cell_id n y) k"
      using k by (simp only: bit_cell_id bit_digit_append [OF c] if_False) simp
  qed
  have "v1_face (cell_id (n - 2) ?y) < 6"
    using v fc by (simp add: v1_is_valid_iff ch)
  then have "v1_is_valid (cell_id (n - 2) ?y)"
    using ev2 le2 by (simp only: v1_is_valid_cell_id [OF le2(2)])
  then show "v1_is_valid (v1_child x c)" by (simp only: ch)
  have "v1_parent (cell_id (n - 2) ?y) = cell_id n (drop_bit 2 ?y)"
    using n2 n64 by (intro v1_parent_cell_id) simp_all
  also have "\<dots> = cell_id n y"
  proof (rule cell_id_cong)
    fix j assume "j + Suc n < 64"
    then have "\<not> 2 + j < 2" "2 + j < 64" "2 + j - 2 = j" using n2 by simp_all
    then show "bit (drop_bit 2 ?y) j = bit y j"
      by (simp only: bit_drop_bit_eq comp_def bit_digit_append [OF c] if_False) simp
  qed
  finally show "v1_parent (v1_child x c) = x" by (simp only: ch) (simp only: x)
  have "?y AND 3 = word_of_int c"
  proof -
    have "?y AND 3 = (push_bit 2 y AND 3) OR (word_of_int c AND 3)"
      by (simp add: bit.conj_disj_distrib2)
    moreover have "push_bit 2 y AND (3 :: uint64) = 0"
    proof (rule bit_eqI)
      fix k assume "possible_bit TYPE(64 word) k"
      have m: "(3 :: uint64) = mask 2" by (simp add: mask_eq_exp_minus_1)
      show "bit (push_bit 2 y AND 3) k = bit (0 :: uint64) k"
        unfolding m by (auto simp: bit_and_iff bit_mask_iff bit_push_bit_iff)
    qed
    ultimately show ?thesis by (simp add: word_of_pos_and_3 [OF c])
  qed
  then show "v1_child_position (v1_child x c) = c"
    unfolding ch by (simp add: v1_child_position_cell_id [OF ev2 le2(1)] uint_word_of_pos [OF c])
qed

text \<open>The parent of a valid cell below the face level.\<close>

lemma v1_parent_props:
  assumes v: "v1_is_valid x" and l: "0 < v1_level x"
  shows "v1_is_valid (v1_parent x)"
    and "v1_level (v1_parent x) = v1_level x - 1"
    and "v1_face (v1_parent x) = v1_face x"
    and "0 \<le> v1_child_position x" and "v1_child_position x < 4"
    and "v1_child (v1_parent x) (v1_child_position x) = x"
proof -
  obtain n y where x: "x = cell_id n y" and ev: "even n" and le: "n \<le> 60"
    and lv: "v1_level x = 30 - int (n div 2)"
    using v by (rule v1_valid_cell)
  have "n div 2 < 30" using l lv by simp
  then have n58: "n \<le> 58" using ev by presburger
  define m where "m = n + 2"
  have m: "m < 64" "even m" "m \<le> 60" "2 \<le> m" "m - 2 = n" using n58 ev by (simp_all add: m_def)
  let ?y = "drop_bit 2 y"
  have pa': "v1_parent (cell_id n y) = cell_id m ?y"
    using m(1) by (intro v1_parent_cell_id) (simp_all add: m_def)
  then have pa: "v1_parent x = cell_id m ?y" by (simp only: x)
  show "v1_level (v1_parent x) = v1_level x - 1" using l by (rule v1_level_parent)
  show fc: "v1_face (v1_parent x) = v1_face x"
    unfolding x pa'
  proof (rule v1_face_cong)
    fix k :: nat assume k: "61 \<le> k" "k < 64"
    have "2 + (k - Suc m) = k - Suc n" "k \<noteq> m" "k \<noteq> n" "Suc m \<le> k" "Suc n \<le> k"
      using k m n58 by (simp_all add: m_def)
    then show "bit (cell_id m ?y) k = bit (cell_id n y) k"
      using k by (simp add: bit_cell_id bit_drop_bit_eq)
  qed
  have "v1_face (cell_id m ?y) < 6" using v fc by (simp add: v1_is_valid_iff pa)
  then have "v1_is_valid (cell_id m ?y)"
    using m by (simp only: v1_is_valid_cell_id [OF m(1)])
  then show "v1_is_valid (v1_parent x)" by (simp only: pa)
  have cp: "v1_child_position x = uint (y AND 3)"
    unfolding x using ev le by (rule v1_child_position_cell_id)
  show "0 \<le> v1_child_position x" "v1_child_position x < 4"
    using uint_and_3 [of y] by (simp_all add: cp)
  have "v1_child (cell_id m ?y) (uint (y AND 3)) = cell_id (m - 2) (push_bit 2 ?y OR word_of_int (uint (y AND 3)))"
    using uint_and_3 [of y] m by (intro v1_child_cell_id) simp_all
  also have "push_bit 2 ?y OR word_of_int (uint (y AND 3)) = y"
  proof (rule bit_eqI)
    fix k assume "possible_bit TYPE(64 word) k"
    have m3: "(3 :: uint64) = mask 2" by (simp add: mask_eq_exp_minus_1)
    have "2 \<le> k \<Longrightarrow> Suc (Suc (k - 2)) = k" by simp
    then show "bit (push_bit 2 ?y OR word_of_int (uint (y AND 3))) k = bit y k"
      unfolding m3 by (auto simp: bit_or_iff bit_push_bit_iff bit_drop_bit_eq bit_and_iff bit_mask_iff
          dest: bit_imp_le_length)
  qed
  finally show "v1_child (v1_parent x) (v1_child_position x) = x"
    by (simp only: pa cp m(5)) (simp only: x)
qed

text \<open>Face cells.\<close>

lemma v1_FromFace_cell: "v1_FromFace f = cell_id 60 (word_of_int f)"
  by (simp add: v1_FromFace_def v1_lsb_for_level_def v1_kPosBits_def v1_kMaxLevel_def
      kMaxCellLevel_def cell_id_add)

lemma v1_FromFace_props:
  assumes "0 \<le> f" and "f < 6"
  shows "v1_is_valid (v1_FromFace f)" and "v1_level (v1_FromFace f) = 0"
    and "v1_face (v1_FromFace f) = f"
proof -
  have "take_bit 3 f = f" using assms by (simp add: take_bit_int_eq_self)
  have "drop_bit 61 (cell_id 60 (word_of_int f)) = (word_of_int f :: uint64)"
  proof (rule bit_eqI)
    fix k assume "possible_bit TYPE(64 word) k"
    have "bit f k \<Longrightarrow> k < 3" using \<open>take_bit 3 f = f\<close> by (metis bit_take_bit_iff)
    then show "bit (drop_bit 61 (cell_id 60 (word_of_int f))) k = bit (word_of_int f :: uint64) k"
      by (auto simp: bit_drop_bit_eq bit_cell_id bit_word_of_int_iff)
  qed
  then show fc: "v1_face (v1_FromFace f) = f"
    using assms
    by (simp add: v1_FromFace_cell v1_face_def v1_kPosBits_def v1_kMaxLevel_def kMaxCellLevel_def
        uint_word_of_int take_bit_int_eq_self)
  show "v1_level (v1_FromFace f) = 0"
    by (simp add: v1_FromFace_cell v1_level_cell_id)
  have "v1_face (cell_id 60 (word_of_int f)) < 6"
    using fc assms by (simp add: v1_FromFace_cell)
  then have "v1_is_valid (cell_id 60 (word_of_int f))"
    by (simp add: v1_is_valid_cell_id)
  then show "v1_is_valid (v1_FromFace f)"
    by (simp only: v1_FromFace_cell)
qed

lemma v1_level_0_FromFace:
  assumes v: "v1_is_valid x" and l: "v1_level x = 0"
  shows "x = v1_FromFace (v1_face x)"
proof -
  obtain n y where x: "x = cell_id n y" and ev: "even n" and le: "n \<le> 60"
    and lv: "v1_level x = 30 - int (n div 2)"
    using v by (rule v1_valid_cell)
  have n: "n = 60" using l lv le ev by presburger
  have "cell_id 60 y = cell_id 60 (word_of_int (uint (drop_bit 61 (cell_id 60 y))))"
  proof (rule cell_id_cong)
    fix j :: nat assume "j + Suc 60 < 64"
    then show "bit y j = bit (word_of_int (uint (drop_bit 61 (cell_id 60 y))) :: uint64) j"
      by (auto simp: bit_drop_bit_eq bit_cell_id)
  qed
  then show ?thesis
    by (simp add: x n v1_FromFace_cell v1_face_def v1_kPosBits_def v1_kMaxLevel_def kMaxCellLevel_def)
qed

lemma uint_word_of_int_64: "0 \<le> z \<Longrightarrow> z < 2 ^ 64 \<Longrightarrow> uint (word_of_int z :: uint64) = z"
  by (simp add: uint_word_of_int take_bit_int_eq_self)

lemma v1_contains_child:
  assumes v: "v1_is_valid x" and l: "v1_level x < 30" and c: "0 \<le> c" "c < 4"
  shows "v1_contains x (v1_child x c)"
proof -
  obtain n y where x: "x = cell_id n y" and ev: "even n" and le: "n \<le> 60"
    and lv: "v1_level x = 30 - int (n div 2)" and cz: "countr_zero x = n"
    using v by (rule v1_valid_cell)
  have n2: "2 \<le> n" using l lv by simp
  have cs: "c = 0 \<or> c = 1 \<or> c = 2 \<or> c = 3" using c by arith
  obtain k where k: "n = k + 2" using n2 by (metis add.commute le_Suc_ex)
  have k64: "k < 64" "n < 64" using le k by simp_all
  have nz: "x \<noteq> 0" using v by (simp add: v1_is_valid_iff)
  have lsb: "v1_lsb x = 2 ^ n" using v1_lsb_eq [OF nz] cz by simp
  define q :: int where "q = 2 ^ k"
  define X where "X = uint x"
  have q1: "1 \<le> q" by (simp add: q_def)
  have qw: "(2 :: uint64) ^ k = word_of_int q" by (simp add: q_def)
  have lw: "(2 :: uint64) ^ n = word_of_int (4 * q)" by (simp add: q_def k)
  have xw: "x = word_of_int X" by (simp add: X_def)
  have "unat (v1_lsb x) \<le> unat x" using v1_lsb_le [of x] by (simp add: word_le_nat_alt)
  then have "(2::nat) ^ n \<le> unat x" by (simp add: lsb unat_exp_64 [OF k64(2)])
  then have "int (2 ^ n) \<le> int (unat x)" by (rule iffD2 [OF of_nat_le_iff])
  then have lo: "4 * q \<le> X" by (simp add: q_def k X_def)
  have "unat x < 6 * 2 ^ 61" using v v1_face_bound [of x] by (simp add: v1_is_valid_iff)
  then have "int (unat x) < int (6 * 2 ^ 61)" by (rule iffD2 [OF of_nat_less_iff])
  then have hi: "X < 6 * 2 ^ 61" by (simp add: X_def)
  have "(2::int) ^ k \<le> 2 ^ 58" using le k by (intro power_increasing) simp_all
  then have q58: "q \<le> 2 ^ 58" by (simp add: q_def)
  have "drop_bit 2 (v1_lsb x) = 2 ^ k"
    using drop_bit_2_exp [OF n2 k64(2)] by (simp add: lsb k)
  then have e1: "v1_child x c = word_of_int (X + (2 * c + 1 - 4) * q)"
    by (simp only: v1_child_def Let_def qw) (simp add: xw)
  have b1: "0 \<le> X + (2 * c + 1 - 4) * q" "X + (2 * c + 1 - 4) * q < 2 ^ 64"
    using cs lo hi q58 q1 by auto
  have uc: "uint (v1_child x c) = X + (2 * c + 1 - 4) * q"
    by (simp only: e1 uint_word_of_int_64 [OF b1])
  have e2: "v1_range_min x = word_of_int (X - (4 * q - 1))"
    by (simp only: v1_range_min_def lsb lw) (simp add: xw)
  have b2: "0 \<le> X - (4 * q - 1)" "X - (4 * q - 1) < 2 ^ 64" using lo hi q1 by simp_all
  have umin: "uint (v1_range_min x) = X - (4 * q - 1)"
    by (simp only: e2 uint_word_of_int_64 [OF b2])
  have e3: "v1_range_max x = word_of_int (X + (4 * q - 1))"
    by (simp only: v1_range_max_def lsb lw) (simp add: xw)
  have b3: "0 \<le> X + (4 * q - 1)" "X + (4 * q - 1) < 2 ^ 64" using lo hi q58 q1 by simp_all
  have umax: "uint (v1_range_max x) = X + (4 * q - 1)"
    by (simp only: e3 uint_word_of_int_64 [OF b3])
  have "X - (4 * q - 1) \<le> X + (2 * c + 1 - 4) * q" "X + (2 * c + 1 - 4) * q \<le> X + (4 * q - 1)"
    using cs q1 by auto
  then show ?thesis
    by (simp add: v1_contains_def word_le_def uc umin umax)
qed

section \<open>Packing and unpacking the path\<close>

lemma pack_path_rev: "pack_path (rev ds) = foldl path_step 0 ds"
  by (simp add: pack_path_def path_step_def [abs_def])

lemma digits_ok_simps [simp]:
  "digits_ok []"
  "digits_ok (d # ds) \<longleftrightarrow> 0 \<le> d \<and> d < 4 \<and> digits_ok ds"
  "digits_ok (ds @ es) \<longleftrightarrow> digits_ok ds \<and> digits_ok es"
  by (auto simp: digits_ok_def)

lemma bit_path_step:
  assumes "0 \<le> d" and "d < 4"
  shows "bit (path_step p d) k \<longleftrightarrow>
           (if k < 2 then bit (word_of_int d :: uint64) k else k < 64 \<and> bit p (k - 2))"
  unfolding path_step_def using assms by (rule bit_digit_append)

lemma bit_foldl_path_step:
  assumes "digits_ok ds" and "bit (foldl path_step p ds) k"
  shows "k < 2 * length ds \<or> (2 * length ds \<le> k \<and> bit p (k - 2 * length ds))"
  using assms
proof (induction ds arbitrary: k rule: rev_induct)
  case Nil
  then show ?case by simp
next
  case (snoc d ds)
  then have d: "0 \<le> d" "d < 4" and ok: "digits_ok ds" by simp_all
  show ?case
  proof (cases "k < 2")
    case True
    then show ?thesis by simp
  next
    case False
    then have "bit (foldl path_step p ds) (k - 2)"
      using snoc.prems(2) by (simp add: bit_path_step [OF d])
    from snoc.IH [OF ok this] False show ?thesis by auto
  qed
qed

lemma foldl_path_step_bound:
  assumes "digits_ok ds" and "bit (foldl path_step 0 ds) k"
  shows "k < 2 * length ds"
  using bit_foldl_path_step [OF assms] by auto

lemma digit_of_foldl_path_step:
  assumes "digits_ok ds" and "k < length ds" and "2 * length ds \<le> 64"
  shows "uint (drop_bit (2 * (length ds - 1 - k)) (foldl path_step p ds) AND 3) = ds ! k"
  using assms
proof (induction ds arbitrary: k rule: rev_induct)
  case Nil
  then show ?case by simp
next
  case (snoc d ds)
  then have d: "0 \<le> d" "d < 4" and ok: "digits_ok ds" by simp_all
  have m3: "(3 :: uint64) = mask 2" by (simp add: mask_eq_exp_minus_1)
  show ?case
  proof (cases "k = length ds")
    case True
    have "path_step (foldl path_step p ds) d AND 3 = word_of_int d"
    proof (rule bit_eqI)
      fix j assume "possible_bit TYPE(64 word) j"
      show "bit (path_step (foldl path_step p ds) d AND 3) j = bit (word_of_int d :: uint64) j"
        unfolding m3 using bit_word_of_pos [OF d, of j]
        by (auto simp: bit_and_iff bit_mask_iff bit_path_step [OF d])
    qed
    then show ?thesis using True by (simp add: uint_word_of_pos [OF d])
  next
    case False
    then have k: "k < length ds" using snoc.prems(2) by simp
    have len: "2 * length ds \<le> 64" using snoc.prems(3) by simp
    have sh: "length (ds @ [d]) - 1 - k = Suc (length ds - 1 - k)" using k by simp
    have st: "drop_bit (2 * Suc (length ds - 1 - k)) (path_step (foldl path_step p ds) d) AND 3
        = drop_bit (2 * (length ds - 1 - k)) (foldl path_step p ds) AND 3"
    proof (rule bit_eqI)
      fix j assume "possible_bit TYPE(64 word) j"
      have a: "\<not> 2 * Suc (length ds - 1 - k) + j < 2"
        "2 * Suc (length ds - 1 - k) + j - 2 = 2 * (length ds - 1 - k) + j" by simp_all
      have b: "j < 2 \<Longrightarrow> 2 * Suc (length ds - 1 - k) + j < 64" using snoc.prems(3) k by simp
      show "bit (drop_bit (2 * Suc (length ds - 1 - k)) (path_step (foldl path_step p ds) d) AND 3) j
          = bit (drop_bit (2 * (length ds - 1 - k)) (foldl path_step p ds) AND 3) j"
        unfolding m3 bit_and_iff bit_mask_iff bit_drop_bit_eq comp_def bit_path_step [OF d] a if_False
        using b by auto
    qed
    have nth: "(ds @ [d]) ! k = ds ! k" using k by (simp add: nth_append)
    show ?thesis
      unfolding sh foldl_append foldl.simps st nth by (rule snoc.IH [OF ok k len])
  qed
qed

lemma bit_word_of_int_bound:
  assumes "0 \<le> z" and "z < 2 ^ n" and "bit (word_of_int z :: uint64) k"
  shows "k < n"
proof -
  have "take_bit n z = z" using assms(1,2) by (simp add: take_bit_int_eq_self)
  moreover have "bit z k" using assms(3) by (simp add: bit_word_of_int_iff)
  ultimately have "bit (take_bit n z) k" by simp
  then show ?thesis by (simp add: bit_take_bit_iff)
qed

lemma bit_compose_id:
  assumes f: "0 \<le> f" "f < 8" and l: "0 \<le> l" "l < 32" and p: "\<And>j. bit p j \<Longrightarrow> j < 56"
  shows "bit (compose_id f p l) k \<longleftrightarrow>
           (if k < 5 then bit (word_of_int l :: uint64) k
            else if k < 61 then bit p (k - 5)
            else k < 64 \<and> bit (word_of_int f :: uint64) (k - 61))"
proof -
  have bl: "bit (word_of_int l :: uint64) j \<Longrightarrow> j < 5" for j
    using bit_word_of_int_bound [of l 5 j] l by simp
  have bf: "bit (word_of_int f :: uint64) j \<Longrightarrow> j < 3" for j
    using bit_word_of_int_bound [of f 3 j] f by simp
  show ?thesis
    unfolding compose_id_def bit_or_iff bit_push_bit_iff
    using bl [of k] p [of "k - 5"] bf [of "k - 61"]
    by (auto simp: bit_imp_le_length dest: bit_imp_le_length)
qed

lemma compose_id_fields:
  assumes f: "0 \<le> f" "f < 8" and l: "0 \<le> l" "l < 32" and p: "\<And>j. bit p j \<Longrightarrow> j < 56"
  shows "uint (drop_bit 61 (compose_id f p l)) = f"
    and "uint (compose_id f p l AND 31) = l"
    and "drop_bit 5 (compose_id f p l) AND (push_bit 56 1 - 1) = p"
proof -
  note bc = bit_compose_id [OF assms]
  have bl: "bit (word_of_int l :: uint64) j \<Longrightarrow> j < 5" for j
    using bit_word_of_int_bound [of l 5 j] l by simp
  have bf: "bit (word_of_int f :: uint64) j \<Longrightarrow> j < 3" for j
    using bit_word_of_int_bound [of f 3 j] f by simp
  have "drop_bit 61 (compose_id f p l) = word_of_int f"
  proof (rule bit_eqI)
    fix k
    show "bit (drop_bit 61 (compose_id f p l)) k = bit (word_of_int f :: uint64) k"
      using bf [of k] by (auto simp: bit_drop_bit_eq bc)
  qed
  then show "uint (drop_bit 61 (compose_id f p l)) = f"
    using f by (simp add: uint_word_of_int_64)
  have m: "(31 :: uint64) = mask 5" by (simp add: mask_eq_exp_minus_1)
  have "compose_id f p l AND 31 = word_of_int l"
  proof (rule bit_eqI)
    fix k
    show "bit (compose_id f p l AND 31) k = bit (word_of_int l :: uint64) k"
      unfolding m using bl [of k] by (auto simp: bit_and_iff bit_mask_iff bc)
  qed
  then show "uint (compose_id f p l AND 31) = l"
    using l by (simp add: uint_word_of_int_64)
  have m56: "push_bit 56 1 - 1 = (mask 56 :: uint64)" by (simp add: mask_eq_exp_minus_1)
  show "drop_bit 5 (compose_id f p l) AND (push_bit 56 1 - 1) = p"
  proof (rule bit_eqI)
    fix k
    show "bit (drop_bit 5 (compose_id f p l) AND (push_bit 56 1 - 1)) k = bit p k"
      unfolding m56 using p [of k] by (auto simp: bit_and_iff bit_mask_iff bit_drop_bit_eq bc)
  qed
qed

section \<open>The two conversion loops\<close>

lemma collect_path_valid:
  assumes "v1_is_valid x" and "v1_level x = int l"
  shows "\<exists>ds. length ds = l \<and> digits_ok ds
           \<and> collect_path x st = Some (v1_FromFace (v1_face x), st @ rev ds)
           \<and> foldl v1_child (v1_FromFace (v1_face x)) ds = x"
  using assms
proof (induction l arbitrary: x st)
  case 0
  then have "x = v1_FromFace (v1_face x)" by (simp add: v1_level_0_FromFace)
  moreover have "collect_path x st = Some (x, st)" using 0 by (subst collect_path.simps) simp
  ultimately show ?case by (intro exI [of _ "[]"]) simp
next
  case (Suc l)
  then have pos: "0 < v1_level x" by simp
  note pp = v1_parent_props [OF Suc.prems(1) pos]
  let ?c = "v1_child_position x"
  have "v1_level (v1_parent x) = int l" using pp(2) Suc.prems(2) by simp
  from Suc.IH [OF pp(1) this, of "st @ [?c]"] obtain ds where
    ds: "length ds = l" "digits_ok ds"
    "collect_path (v1_parent x) (st @ [?c]) = Some (v1_FromFace (v1_face x), (st @ [?c]) @ rev ds)"
    "foldl v1_child (v1_FromFace (v1_face x)) ds = v1_parent x"
    unfolding pp(3) by blast
  have "collect_path x st = collect_path (v1_parent x) (st @ [?c])"
    using pos pp(4,5) by (subst collect_path.simps) (simp add: Let_def)
  then have "collect_path x st = Some (v1_FromFace (v1_face x), st @ rev (ds @ [?c]))"
    using ds(3) by simp
  moreover have "foldl v1_child (v1_FromFace (v1_face x)) (ds @ [?c]) = x"
    using ds(4) pp(6) by simp
  moreover have "length (ds @ [?c]) = Suc l" "digits_ok (ds @ [?c])"
    using ds(1,2) pp(4,5) by simp_all
  ultimately show ?case by blast
qed

lemma foldl_v1_child_props:
  assumes "digits_ok ds" and "v1_is_valid r" and "v1_level r + int (length ds) \<le> 30"
  shows "v1_is_valid (foldl v1_child r ds)"
    and "v1_level (foldl v1_child r ds) = v1_level r + int (length ds)"
    and "v1_face (foldl v1_child r ds) = v1_face r"
  using assms
proof (induction ds arbitrary: r)
  case Nil
  { case 1 then show ?case by simp }
  { case 2 then show ?case by simp }
  { case 3 then show ?case by simp }
next
  case (Cons d ds)
  { case 1
    then have d: "0 \<le> d" "d < 4" and ok: "digits_ok ds" and l: "v1_level r < 30" by simp_all
    note cp = v1_child_props [OF 1(2) l d]
    show ?case using Cons.IH(1) [OF ok cp(1)] 1(3) cp(2) by simp }
  { case 2
    then have d: "0 \<le> d" "d < 4" and ok: "digits_ok ds" and l: "v1_level r < 30" by simp_all
    note cp = v1_child_props [OF 2(2) l d]
    show ?case using Cons.IH(2) [OF ok cp(1)] 2(3) cp(2) by simp }
  { case 3
    then have d: "0 \<le> d" "d < 4" and ok: "digits_ok ds" and l: "v1_level r < 30" by simp_all
    note cp = v1_child_props [OF 3(2) l d]
    show ?case using Cons.IH(3) [OF ok cp(1)] 3(3) cp(2,3) by simp }
qed

lemma descend_step:
  assumes "i < level" and "cp = uint (drop_bit (nat (2 * (level - 1 - i))) path AND 3)"
    and "0 \<le> cp" and "cp < 4" and "v1_is_valid (v1_child r cp)"
  shows "descend r path level i = descend (v1_child r cp) path level (i + 1)"
  using assms(1,3,4,5) unfolding assms(2)
  by (subst descend.simps) (simp add: Let_def)

lemma descend_digits:
  assumes ok: "digits_ok ds" and len: "length ds \<le> 28"
    and r: "v1_is_valid r" "v1_level r = int i" and i: "i \<le> length ds"
  shows "descend r (foldl path_step 0 ds) (int (length ds)) (int i) = foldl v1_child r (drop i ds)"
  using r i
proof (induction "length ds - i" arbitrary: r i)
  case 0
  then show ?case by (subst descend.simps) simp
next
  case (Suc k)
  then have i: "i < length ds" by simp
  let ?d = "ds ! i"
  have sh: "nat (2 * (int (length ds) - 1 - int i)) = 2 * (length ds - 1 - i)" using i by simp
  have dg: "uint (drop_bit (2 * (length ds - 1 - i)) (foldl path_step 0 ds) AND 3) = ?d"
    using ok i len by (intro digit_of_foldl_path_step) simp_all
  have d: "0 \<le> ?d" "?d < 4" using ok i by (simp_all add: digits_ok_def list_all_length)
  have l: "v1_level r < 30" using Suc.prems(2) i len by simp
  note cp = v1_child_props [OF Suc.prems(1) l d]
  have "v1_level (v1_child r ?d) = int (Suc i)" using cp(2) Suc.prems(2) by simp
  from Suc.hyps(1) [of "Suc i", OF _ cp(1) this] Suc.hyps(2) i
  have IH: "descend (v1_child r ?d) (foldl path_step 0 ds) (int (length ds)) (int (Suc i))
      = foldl v1_child (v1_child r ?d) (drop (Suc i) ds)" by simp
  have "descend r (foldl path_step 0 ds) (int (length ds)) (int i)
      = descend (v1_child r ?d) (foldl path_step 0 ds) (int (length ds)) (int i + 1)"
  proof (rule descend_step)
    show "int i < int (length ds)" using i by simp
    show "?d = uint (drop_bit (nat (2 * (int (length ds) - 1 - int i))) (foldl path_step 0 ds) AND 3)"
      using dg by (simp only: sh)
  qed (use d cp(1) in simp_all)
  also have "\<dots> = foldl v1_child (v1_child r ?d) (drop (Suc i) ds)"
    using IH by (simp add: add.commute)
  also have "\<dots> = foldl v1_child r (drop i ds)"
    using i by (simp add: Cons_nth_drop_Suc [symmetric])
  finally show ?case .
qed

lemma v1_face_nonneg: "0 \<le> v1_face x"
  by (simp add: v1_face_def)

lemma v1_level_nonneg: "v1_is_valid x \<Longrightarrow> 0 \<le> v1_level x"
  by (erule v1_valid_cell) simp

lemma path_bits_bound:
  assumes "digits_ok ds" and "length ds \<le> 28" and "bit (foldl path_step 0 ds) j"
  shows "j < 56"
  using foldl_path_step_bound [OF assms(1,3)] assms(2) by simp

text \<open>The result of \<open>ConvertFromOldFormat\<close> on a valid cell of level 1 to 28.\<close>

lemma ConvertFromOldFormat_deep:
  assumes v: "v1_is_valid x" and l: "v1_level x = int l" "1 \<le> l" "l \<le> 28"
  shows "\<exists>ds. length ds = l \<and> digits_ok ds
           \<and> ConvertFromOldFormat x = compose_id (v1_face x) (foldl path_step 0 ds) (int l)
           \<and> foldl v1_child (v1_FromFace (v1_face x)) ds = x"
proof -
  from collect_path_valid [OF v l(1), of "[]"] obtain ds where
    ds: "length ds = l" "digits_ok ds"
    "collect_path x [] = Some (v1_FromFace (v1_face x), rev ds)"
    "foldl v1_child (v1_FromFace (v1_face x)) ds = x" by auto
  have f: "0 \<le> v1_face x" "v1_face x < 6"
    using v by (simp_all add: v1_face_nonneg v1_is_valid_iff)
  have "v1_face (v1_FromFace (v1_face x)) = v1_face x" using f by (rule v1_FromFace_props(3))
  then have "ConvertFromOldFormat x = compose_id (v1_face x) (foldl path_step 0 ds) (int l)"
    using v l f ds(3)
    by (simp add: ConvertFromOldFormat_def kMaxLevel_def compose_id_def pack_path_rev
        kFaceBits_def kLevelBits_def)
  then show ?thesis using ds by blast
qed

lemma ConvertFromOldFormat_face:
  assumes v: "v1_is_valid x" and l: "v1_level x = 0"
  shows "ConvertFromOldFormat x
           = (if v1_face x = 0 then root_marker else push_bit 61 (word_of_int (v1_face x)))"
proof -
  have f: "0 \<le> v1_face x" "v1_face x < 6"
    using v by (simp_all add: v1_face_nonneg v1_is_valid_iff)
  have "push_bit 61 (word_of_int (v1_face x) :: uint64) = 0 \<longleftrightarrow> v1_face x = 0"
  proof
    assume z: "push_bit 61 (word_of_int (v1_face x) :: uint64) = 0"
    have "compose_id (v1_face x) 0 0 = 0" using z by (simp add: compose_id_def)
    moreover have "uint (drop_bit 61 (compose_id (v1_face x) 0 0)) = v1_face x"
      using f by (intro compose_id_fields(1)) simp_all
    ultimately show "v1_face x = 0" by simp
  qed simp
  then show ?thesis
    using v l f by (simp add: ConvertFromOldFormat_def kMaxLevel_def kFaceBits_def)
qed

lemma compose_id_fields_k:
  assumes f: "0 \<le> f" "f < 8" and l: "0 \<le> l" "l < 32" and p: "\<And>j. bit p j \<Longrightarrow> j < 56"
  shows "uint (drop_bit (64 - kFaceBits) (compose_id f p l)) = f"
    and "uint (compose_id f p l AND kLevelMask) = l"
    and "drop_bit kLevelBits (compose_id f p l) AND (push_bit kPathBits 1 - 1) = p"
  using compose_id_fields [OF assms]
  by (simp_all add: kFaceBits_def kLevelMask_def kLevelBits_def kPathBits_def)

lemma compose_id_level_neq:
  assumes f: "0 \<le> f" "f < 8" and l: "1 \<le> l" "l < 32" and p: "\<And>j. bit p j \<Longrightarrow> j < 56"
  shows "compose_id f p l \<noteq> 0" and "compose_id f p l \<noteq> root_marker"
proof -
  have lv: "uint (compose_id f p l AND 31) = l"
    using f l p by (intro compose_id_fields(2)) simp_all
  show "compose_id f p l \<noteq> 0" using lv l(1) by auto
  have "uint (root_marker AND 31) = 0"
    by (simp add: root_marker_def kLevelBits_def kPathBits_def kFaceBits_def)
  then show "compose_id f p l \<noteq> root_marker" using lv l(1) by auto
qed

lemma ConvertToOldFormat_compose:
  assumes f: "0 \<le> f" "f < 6" and ok: "digits_ok ds" and len: "1 \<le> length ds" "length ds \<le> 28"
  shows "ConvertToOldFormat (compose_id f (foldl path_step 0 ds) (int (length ds)))
           = foldl v1_child (v1_FromFace f) ds"
proof -
  let ?p = "foldl path_step 0 ds" and ?l = "int (length ds)"
  have p: "bit ?p j \<Longrightarrow> j < 56" for j using ok len(2) by (rule path_bits_bound)
  have f8: "f < 8" using f by simp
  have l: "0 \<le> ?l" "?l < 32" "1 \<le> ?l" using len by simp_all
  have fld: "uint (drop_bit (64 - kFaceBits) (compose_id f ?p ?l)) = f"
    "uint (compose_id f ?p ?l AND kLevelMask) = ?l"
    "drop_bit kLevelBits (compose_id f ?p ?l) AND (push_bit kPathBits 1 - 1) = ?p"
    by (rule compose_id_fields_k [OF f(1) f8 l(1,2)], erule p)+
  have ne: "compose_id f ?p ?l \<noteq> 0" "compose_id f ?p ?l \<noteq> root_marker"
    by (rule compose_id_level_neq [OF f(1) f8 l(3,2)], erule p)+
  note ff = v1_FromFace_props [OF f]
  have "ConvertToOldFormat (compose_id f ?p ?l) = descend (v1_FromFace f) ?p ?l 0"
  proof -
    have "ds \<noteq> []" using len(1) by auto
    then show ?thesis
      using f len ne
      by (simp add: ConvertToOldFormat_def fld kMaxLevel_def Let_def del: push_bit_of_1)
  qed
  also have "\<dots> = foldl v1_child (v1_FromFace f) (drop 0 ds)"
    using descend_digits [OF ok len(2) ff(1), of 0] ff(2) by simp
  finally show ?thesis by simp
qed

text \<open>The round trip on a Primary identifier of level at most 28.\<close>

lemma ConvertToOldFormat_ConvertFromOldFormat:
  assumes v: "v1_is_valid x" and l: "v1_level x \<le> 28"
  shows "ConvertToOldFormat (ConvertFromOldFormat x) = x"
proof (cases "v1_level x = 0")
  case True
  have f: "0 \<le> v1_face x" "v1_face x < 6"
    using v by (simp_all add: v1_face_nonneg v1_is_valid_iff)
  have x: "x = v1_FromFace (v1_face x)" using v True by (rule v1_level_0_FromFace)
  show ?thesis
  proof (cases "v1_face x = 0")
    case True
    then show ?thesis
      using x ConvertFromOldFormat_face [OF v \<open>v1_level x = 0\<close>]
      by (simp add: ConvertToOldFormat_def root_marker_def kLevelBits_def kPathBits_def kFaceBits_def)
  next
    case False
    let ?y = "push_bit 61 (word_of_int (v1_face x)) :: uint64"
    have c: "?y = compose_id (v1_face x) 0 0" by (simp add: compose_id_def)
    have f8: "v1_face x < 8" using f by simp
    have z: "bit (0 :: uint64) j \<Longrightarrow> j < 56" for j by simp
    have fld: "uint (drop_bit (64 - kFaceBits) ?y) = v1_face x" "uint (?y AND kLevelMask) = 0"
      unfolding c by (rule compose_id_fields_k [OF f(1) f8 _ _ z]; simp)+
    have "?y \<noteq> 0" using fld(1) False by (auto simp: kFaceBits_def)
    moreover have "?y \<noteq> root_marker"
    proof
      assume "?y = root_marker"
      then have "uint (drop_bit (64 - kFaceBits) ?y) = uint (drop_bit (64 - kFaceBits) root_marker)"
        by simp
      then show False using False unfolding fld(1)
        by (simp add: root_marker_def kLevelBits_def kPathBits_def kFaceBits_def)
    qed
    ultimately have "ConvertToOldFormat ?y = v1_FromFace (v1_face x)"
      using f by (simp add: ConvertToOldFormat_def fld kMaxLevel_def)
    then show ?thesis
      using x ConvertFromOldFormat_face [OF v \<open>v1_level x = 0\<close>] False by simp
  qed
next
  case False
  define n where "n = nat (v1_level x)"
  have n: "v1_level x = int n" "1 \<le> n" "n \<le> 28"
    using False l v1_level_nonneg [OF v] by (simp_all add: n_def)
  from ConvertFromOldFormat_deep [OF v n] obtain ds where
    ds: "length ds = n" "digits_ok ds"
    "ConvertFromOldFormat x = compose_id (v1_face x) (foldl path_step 0 ds) (int n)"
    "foldl v1_child (v1_FromFace (v1_face x)) ds = x" by blast
  have f: "0 \<le> v1_face x" "v1_face x < 6"
    using v by (simp_all add: v1_face_nonneg v1_is_valid_iff)
  show ?thesis
    using ConvertToOldFormat_compose [OF f ds(2)] n(2,3) ds(1,3,4) by simp
qed

text \<open>An ancestor of a valid Primary cell.\<close>

lemma v1_parent_level_props:
  assumes v: "v1_is_valid x" and t: "0 \<le> t" "t \<le> v1_level x"
  shows "v1_is_valid (v1_parent_level x t)"
    and "v1_level (v1_parent_level x t) = t"
    and "v1_face (v1_parent_level x t) = v1_face x"
proof -
  obtain n y where x: "x = cell_id n y" and ev: "even n" and le: "n \<le> 60"
    and lv: "v1_level x = 30 - int (n div 2)"
    using v by (rule v1_valid_cell)
  define m where "m = nat (2 * (v1_kMaxLevel - t))"
  have t30: "t \<le> 30" using t(2) lv by simp
  have mm: "m = nat (2 * (30 - t))" by (simp add: m_def v1_kMaxLevel_def kMaxCellLevel_def)
  have m: "m < 64" "even m" "m \<le> 60" "int (m div 2) = 30 - t"
    using t t30 by (simp_all add: mm nat_mult_distrib even_nat_iff)
  have "2 * (n div 2) = n" using ev by simp
  then have "int n = 2 * int (n div 2)" by linarith
  moreover have "int m = 2 * (30 - t)" using t30 by (simp add: mm)
  ultimately have "int n \<le> int m" using t(2) unfolding lv by simp
  then have nm: "n \<le> m" by simp
  let ?y = "drop_bit (m - n) y"
  have pa': "v1_parent_level (cell_id n y) t = cell_id m ?y"
    using m_def m(1) nm by (rule v1_parent_level_cell_id)
  then have pa: "v1_parent_level x t = cell_id m ?y" by (simp only: x)
  show "v1_level (v1_parent_level x t) = t"
    unfolding pa using m(4) by (simp add: v1_level_cell_id [OF m(1)])
  show fc: "v1_face (v1_parent_level x t) = v1_face x"
    unfolding x pa'
  proof (rule v1_face_cong)
    fix k :: nat assume k: "61 \<le> k" "k < 64"
    have "m - n + (k - Suc m) = k - Suc n" "k \<noteq> m" "k \<noteq> n" "Suc m \<le> k" "Suc n \<le> k"
      using k m nm by simp_all
    then show "bit (cell_id m ?y) k = bit (cell_id n y) k"
      using k by (simp add: bit_cell_id bit_drop_bit_eq)
  qed
  have "v1_face (cell_id m ?y) < 6" using v fc by (simp add: v1_is_valid_iff pa)
  then have "v1_is_valid (cell_id m ?y)"
    using m by (simp only: v1_is_valid_cell_id [OF m(1)])
  then show "v1_is_valid (v1_parent_level x t)" by (simp only: pa)
qed

section \<open>Validity of Compact identifiers\<close>

lemma v2_is_valid_compose:
  assumes f: "0 \<le> f" "f < 6" and l: "1 \<le> l" "l \<le> 28"
    and p: "\<And>j. bit p j \<Longrightarrow> j < nat (2 * l)"
  shows "v2_is_valid (compose_id f p l)"
proof -
  have p56: "bit p j \<Longrightarrow> j < 56" for j using p [of j] l by simp
  have f8: "f < 8" and l32: "0 \<le> l" "l < 32" using f l by simp_all
  have fld: "uint (drop_bit (64 - kFaceBits) (compose_id f p l)) = f"
    "uint (compose_id f p l AND kLevelMask) = l"
    "drop_bit kLevelBits (compose_id f p l) AND (push_bit kPathBits 1 - 1) = p"
    by (rule compose_id_fields_k [OF f(1) f8 l32], erule p56)+
  have ne: "compose_id f p l \<noteq> 0"
    by (rule compose_id_level_neq [OF f(1) f8 l(1) l32(2)], erule p56)
  have hi: "p AND NOT (push_bit (nat (l * 2)) 1 - 1) = 0"
  proof (rule bit_eqI)
    fix k
    have "push_bit (nat (l * 2)) 1 - 1 = (mask (nat (l * 2)) :: uint64)"
      by (simp add: mask_eq_exp_minus_1)
    then show "bit (p AND NOT (push_bit (nat (l * 2)) 1 - 1)) k = bit (0 :: uint64) k"
      using p [of k] by (auto simp: bit_and_iff bit_not_iff bit_mask_iff mult.commute)
  qed
  show ?thesis
    using f l ne hi
    by (simp add: v2_is_valid_def fld Let_def kMaxLevel_def del: push_bit_of_1)
qed

lemma compose_id_root:
  assumes f: "0 \<le> f" "f < 6"
  shows "compose_id f 0 0 = 0 \<longleftrightarrow> f = 0"
    and "compose_id f 0 0 \<noteq> 0 \<Longrightarrow> v2_is_valid (compose_id f 0 0)"
    and "v2_is_valid root_marker"
proof -
  have z: "bit (0 :: uint64) j \<Longrightarrow> j < 56" for j by simp
  have f8: "f < 8" using f by simp
  have fld: "uint (drop_bit (64 - kFaceBits) (compose_id f 0 0)) = f"
    "uint (compose_id f 0 0 AND kLevelMask) = 0"
    by (rule compose_id_fields_k [OF f(1) f8 _ _ z]; simp)+
  show "compose_id f 0 0 = 0 \<longleftrightarrow> f = 0"
  proof
    assume "compose_id f 0 0 = 0"
    then show "f = 0" using fld(1) by (simp add: kFaceBits_def)
  qed (simp add: compose_id_def)
  show "v2_is_valid (compose_id f 0 0)" if "compose_id f 0 0 \<noteq> 0"
    using that f by (simp add: v2_is_valid_def fld Let_def kMaxLevel_def)
  show "v2_is_valid root_marker"
    by code_simp
qed

text \<open>Every result of \<open>ConvertFromOldFormat\<close> is \<open>None()\<close> or valid.\<close>

lemma ConvertFromOldFormat_valid:
  "ConvertFromOldFormat x = 0 \<or> v2_is_valid (ConvertFromOldFormat x)"
proof (cases "v1_is_valid x \<and> v1_level x \<le> 28")
  case False
  then show ?thesis by (auto simp: ConvertFromOldFormat_def kMaxLevel_def Let_def)
next
  case True
  then have v: "v1_is_valid x" and l28: "v1_level x \<le> 28" by simp_all
  have f: "0 \<le> v1_face x" "v1_face x < 6"
    using v by (simp_all add: v1_face_nonneg v1_is_valid_iff)
  show ?thesis
  proof (cases "v1_level x = 0")
    case True
    have "push_bit 61 (word_of_int (v1_face x)) = compose_id (v1_face x) 0 0"
      by (simp add: compose_id_def)
    then show ?thesis
      using ConvertFromOldFormat_face [OF v True] compose_id_root [OF f] by auto
  next
    case False
    define n where "n = nat (v1_level x)"
    have n: "v1_level x = int n" "1 \<le> n" "n \<le> 28"
      using False l28 v1_level_nonneg [OF v] by (simp_all add: n_def)
    from ConvertFromOldFormat_deep [OF v n] obtain ds where
      ds: "length ds = n" "digits_ok ds"
      "ConvertFromOldFormat x = compose_id (v1_face x) (foldl path_step 0 ds) (int n)" by blast
    have "bit (foldl path_step 0 ds) j \<Longrightarrow> j < nat (2 * int n)" for j
      using foldl_path_step_bound [OF ds(2), of j] ds(1) by simp
    then have "v2_is_valid (compose_id (v1_face x) (foldl path_step 0 ds) (int n))"
      using f n(2,3) by (intro v2_is_valid_compose) simp_all
    then show ?thesis by (simp add: ds(3))
  qed
qed

lemma v2_fields_compose:
  assumes f: "0 \<le> f" "f < 6" and l: "1 \<le> l" "l \<le> 28" and p: "\<And>j. bit p j \<Longrightarrow> j < nat (2 * l)"
  shows "v2_level (compose_id f p l) = l" and "v2_face (compose_id f p l) = f"
    and "v2_path (compose_id f p l) = p"
proof -
  have p56: "bit p j \<Longrightarrow> j < 56" for j using p [of j] l by simp
  have f8: "f < 8" and l32: "0 \<le> l" "l < 32" using f l by simp_all
  have fld: "uint (drop_bit (64 - kFaceBits) (compose_id f p l)) = f"
    "uint (compose_id f p l AND kLevelMask) = l"
    "drop_bit kLevelBits (compose_id f p l) AND (push_bit kPathBits 1 - 1) = p"
    by (rule compose_id_fields_k [OF f(1) f8 l32], erule p56)+
  have ne: "compose_id f p l \<noteq> root_marker"
    by (rule compose_id_level_neq [OF f(1) f8 l(1) l32(2)], erule p56)
  show lv: "v2_level (compose_id f p l) = l" using ne by (simp add: v2_level_def fld)
  show "v2_face (compose_id f p l) = f" using ne by (simp add: v2_face_def fld)
  have "p AND (push_bit (nat (l * 2)) 1 - 1) = p"
  proof (rule bit_eqI)
    fix k
    have "push_bit (nat (l * 2)) 1 - 1 = (mask (nat (l * 2)) :: uint64)"
      by (simp add: mask_eq_exp_minus_1)
    then show "bit (p AND (push_bit (nat (l * 2)) 1 - 1)) k = bit p k"
      using p [of k] by (auto simp: bit_and_iff bit_mask_iff mult.commute dest: bit_imp_le_length)
  qed
  then show "v2_path (compose_id f p l) = p"
    using l by (simp add: v2_path_def lv fld Let_def kMaxLevel_def del: push_bit_of_1)
qed

lemma v2_fields_root:
  assumes f: "0 \<le> f" "f < 6" and ne: "compose_id f 0 0 \<noteq> 0"
  shows "v2_level (compose_id f 0 0) = 0" and "v2_face (compose_id f 0 0) = f"
proof -
  have z: "bit (0 :: uint64) j \<Longrightarrow> j < 56" for j by simp
  have f8: "f < 8" using f by simp
  have fld: "uint (drop_bit (64 - kFaceBits) (compose_id f 0 0)) = f"
    "uint (compose_id f 0 0 AND kLevelMask) = 0"
    by (rule compose_id_fields_k [OF f(1) f8 _ _ z]; simp)+
  show "v2_level (compose_id f 0 0) = 0" by (simp add: v2_level_def fld)
  have "f \<noteq> 0" using ne compose_id_root(1) [OF f] by simp
  moreover have "uint (drop_bit (64 - kFaceBits) root_marker) = 0"
    by (simp add: root_marker_def kLevelBits_def kPathBits_def kFaceBits_def)
  ultimately have "compose_id f 0 0 \<noteq> root_marker" using fld(1) by auto
  then show "v2_face (compose_id f 0 0) = f" by (simp add: v2_face_def fld)
qed

lemma v2_fields_root_marker: "v2_level root_marker = 0" "v2_face root_marker = 0"
  by (simp_all add: v2_level_def v2_face_def)

text \<open>What \<open>ConvertFromOldFormat\<close> returns on a valid cell of level at most 28.\<close>

lemma ConvertFromOldFormat_props:
  assumes v: "v1_is_valid x" and l: "v1_level x \<le> 28"
  shows "v2_is_valid (ConvertFromOldFormat x)"
    and "v2_level (ConvertFromOldFormat x) = v1_level x"
    and "v2_face (ConvertFromOldFormat x) = v1_face x"
proof -
  have f: "0 \<le> v1_face x" "v1_face x < 6"
    using v by (simp_all add: v1_face_nonneg v1_is_valid_iff)
  have "v2_is_valid (ConvertFromOldFormat x) \<and> v2_level (ConvertFromOldFormat x) = v1_level x
      \<and> v2_face (ConvertFromOldFormat x) = v1_face x"
  proof (cases "v1_level x = 0")
    case True
    have c: "push_bit 61 (word_of_int (v1_face x)) = compose_id (v1_face x) 0 0"
      by (simp add: compose_id_def)
    show ?thesis
    proof (cases "v1_face x = 0")
      case True
      then show ?thesis
        using ConvertFromOldFormat_face [OF v \<open>v1_level x = 0\<close>] \<open>v1_level x = 0\<close>
          compose_id_root(3) [OF f] v2_fields_root_marker by simp
    next
      case False
      then have ne: "compose_id (v1_face x) 0 0 \<noteq> 0" using compose_id_root(1) [OF f] by simp
      show ?thesis
        using ConvertFromOldFormat_face [OF v True] True False c
          compose_id_root(2) [OF f ne] v2_fields_root(1,2) [OF f ne] by simp
    qed
  next
    case False
    define n where "n = nat (v1_level x)"
    have n: "v1_level x = int n" "1 \<le> n" "n \<le> 28"
      using False l v1_level_nonneg [OF v] by (simp_all add: n_def)
    from ConvertFromOldFormat_deep [OF v n] obtain ds where
      ds: "length ds = n" "digits_ok ds"
      "ConvertFromOldFormat x = compose_id (v1_face x) (foldl path_step 0 ds) (int n)" by blast
    have p: "bit (foldl path_step 0 ds) j \<Longrightarrow> j < nat (2 * int n)" for j
      using foldl_path_step_bound [OF ds(2), of j] ds(1) by simp
    have n': "1 \<le> int n" "int n \<le> 28" using n by simp_all
    have "v2_is_valid (compose_id (v1_face x) (foldl path_step 0 ds) (int n))"
      by (rule v2_is_valid_compose [OF f n'], erule p)
    moreover have "v2_level (compose_id (v1_face x) (foldl path_step 0 ds) (int n)) = int n"
      "v2_face (compose_id (v1_face x) (foldl path_step 0 ds) (int n)) = v1_face x"
      by (rule v2_fields_compose [OF f n'], erule p)+
    ultimately show ?thesis by (simp add: ds(3) n(1))
  qed
  then show "v2_is_valid (ConvertFromOldFormat x)"
    and "v2_level (ConvertFromOldFormat x) = v1_level x"
    and "v2_face (ConvertFromOldFormat x) = v1_face x" by simp_all
qed

lemma compose_id_decompose:
  "compose_id (uint (drop_bit 61 x)) (take_bit 56 (drop_bit 5 x)) (uint (x AND 31)) = x"
proof (rule bit_eqI)
  fix k assume "possible_bit TYPE(64 word) k"
  then have k: "k < 64" by simp
  have m: "(31 :: uint64) = mask 5" by (simp add: mask_eq_exp_minus_1)
  consider "k < 5" | "5 \<le> k" "k < 61" | "61 \<le> k" by linarith
  then show "bit (compose_id (uint (drop_bit 61 x)) (take_bit 56 (drop_bit 5 x)) (uint (x AND 31))) k
      = bit x k"
  proof cases
    case 1
    then show ?thesis
      unfolding compose_id_def m
      by (simp add: bit_or_iff bit_push_bit_iff bit_and_iff bit_mask_iff)
  next
    case 2
    then have a: "k - 5 < 56" "5 + (k - 5) = k" by simp_all
    show ?thesis
      unfolding compose_id_def m using 2
      by (simp add: a bit_or_iff bit_push_bit_iff bit_take_bit_iff bit_drop_bit_eq bit_and_iff
          bit_mask_iff)
  next
    case 3
    then have a: "\<not> k - 5 < 56" "61 + (k - 61) = k" "5 \<le> k" "\<not> k < 5" by simp_all
    show ?thesis
      unfolding compose_id_def m using 3 k
      by (simp add: a bit_or_iff bit_push_bit_iff bit_take_bit_iff bit_drop_bit_eq bit_and_iff
          bit_mask_iff)
  qed
qed

lemma path_field_eq: "drop_bit kLevelBits x AND (push_bit kPathBits 1 - 1) = take_bit 56 (drop_bit 5 x)"
  by (simp add: kLevelBits_def kPathBits_def kFaceBits_def take_bit_eq_mask mask_eq_exp_minus_1)

lemma uint_and_31: "0 \<le> uint ((x :: uint64) AND 31) \<and> uint (x AND 31) < 32"
proof -
  have "x AND 31 \<le> 31" by (rule word_and_le1)
  then have "uint (x AND 31) \<le> uint (31 :: uint64)" by (simp add: word_le_def)
  then show ?thesis by simp
qed

text \<open>What \<open>is_valid\<close> says about the three fields.\<close>

lemma v2_is_valid_fields:
  assumes v: "v2_is_valid x" and nr: "x \<noteq> root_marker"
  shows "uint (drop_bit 61 x) < 6" and "uint (x AND 31) \<le> 28"
    and "1 \<le> uint (x AND 31) \<Longrightarrow> bit (take_bit 56 (drop_bit 5 x)) j \<Longrightarrow> j < nat (2 * uint (x AND 31))"
proof -
  let ?f = "uint (drop_bit 61 x)" and ?l = "uint (x AND 31)" and ?p = "take_bit 56 (drop_bit 5 x)"
  have k: "kLevelMask = 31" "64 - kFaceBits = 61"
    by (simp_all add: kLevelMask_def kLevelBits_def kFaceBits_def)
  have nz: "x \<noteq> 0" using v by (auto simp: v2_is_valid_def)
  have c: "\<not> (?f < 0 \<or> 6 \<le> ?f)" "\<not> (?l < 0 \<or> kMaxLevel < ?l)"
    using v nr nz unfolding v2_is_valid_def Let_def k
    by (auto split: if_splits)
  show "?f < 6" "?l \<le> 28" using c by (simp_all add: kMaxLevel_def)
  assume l1: "1 \<le> ?l" and b: "bit ?p j"
  have hi: "?l * 2 < int kPathBits \<Longrightarrow> ?p AND NOT (push_bit (nat (?l * 2)) 1 - 1) = 0"
    using v nr nz l1 c unfolding v2_is_valid_def Let_def k path_field_eq
    by (auto split: if_splits)
  show "j < nat (2 * ?l)"
  proof (cases "?l * 2 < 56")
    case True
    have mm: "push_bit (nat (?l * 2)) 1 - 1 = (mask (nat (?l * 2)) :: uint64)"
      by (simp add: mask_eq_exp_minus_1)
    have "?p AND NOT (mask (nat (?l * 2))) = 0"
      using hi True unfolding mm by (simp add: kPathBits_def kFaceBits_def kLevelBits_def)
    then have "\<not> bit (?p AND NOT (mask (nat (?l * 2)))) j" by simp
    then show ?thesis
      using b by (auto simp: bit_and_iff bit_not_iff bit_mask_iff mult.commute dest: bit_imp_le_length)
  next
    case False
    have "j < 56" using b by (simp add: bit_take_bit_iff)
    then show ?thesis using False by simp
  qed
qed

section \<open>What the operations return\<close>

lemma canonicalI:
  assumes "0 \<le> f" "f < 6" "0 \<le> l" "l \<le> 28" "\<And>j. bit p j \<Longrightarrow> j < nat (2 * l)"
  shows "canonical (compose_id f p l)"
  unfolding canonical_def using assms by blast

lemma canonical_simps [simp]: "canonical 0" "canonical root_marker" "canonical v2_None"
  by (simp_all add: canonical_def v2_None_def)

lemma field_conditions_compose:
  assumes f: "0 \<le> f" "f < 6" and l: "0 \<le> l" "l \<le> 28" and p: "\<And>j. bit p j \<Longrightarrow> j < nat (2 * l)"
  shows "field_conditions (compose_id f p l)"
proof -
  have p56: "bit p j \<Longrightarrow> j < 56" for j using p [of j] l by simp
  have f8: "f < 8" and l32: "l < 32" using f l by simp_all
  have fld: "uint (drop_bit (64 - kFaceBits) (compose_id f p l)) = f"
    "uint (compose_id f p l AND kLevelMask) = l"
    "drop_bit kLevelBits (compose_id f p l) AND (push_bit kPathBits 1 - 1) = p"
    by (rule compose_id_fields_k [OF f(1) f8 l(1) l32], erule p56)+
  have "drop_bit (nat (2 * l)) p = 0"
  proof (rule bit_eqI)
    fix k
    show "bit (drop_bit (nat (2 * l)) p) k = bit (0 :: uint64) k"
      using p [of "nat (2 * l) + k"] by (auto simp: bit_drop_bit_eq)
  qed
  then show ?thesis
    using f l unfolding field_conditions_def fld by (simp add: kMaxLevel_def)
qed

lemma canonical_none_or_valid:
  assumes "canonical r"
  shows "none_or_valid r"
proof -
  consider "r = 0" | "r = root_marker"
    | f p l where "r = compose_id f p l" "0 \<le> f" "f < 6" "0 \<le> l" "l \<le> 28"
        "\<And>j. bit p j \<Longrightarrow> j < nat (2 * l)" "r \<noteq> 0"
    using assms unfolding canonical_def by blast
  then show ?thesis
  proof cases
    case 1
    then show ?thesis by (simp add: none_or_valid_def v2_None_def)
  next
    case 2
    have "v2_is_valid root_marker" by code_simp
    then show ?thesis using 2 by (simp add: none_or_valid_def field_conditions_def)
  next
    case 3
    have fc: "field_conditions (compose_id f p l)"
      by (rule field_conditions_compose [OF 3(2-5)], erule 3(6))
    have "v2_is_valid (compose_id f p l)"
    proof (cases "l = 0")
      case True
      then have "p = 0" using 3(6) by (auto intro!: bit_eqI)
      then show ?thesis using True 3(1,7) compose_id_root(2) [OF 3(2,3)] by simp
    next
      case False
      then have "1 \<le> l" using 3(4) by simp
      then show ?thesis by (rule v2_is_valid_compose [OF 3(2,3) _ 3(5)], erule_tac 3(6))
    qed
    then show ?thesis using fc 3(1) by (simp add: none_or_valid_def)
  qed
qed

lemma canonical_ConvertFromOldFormat: "canonical (ConvertFromOldFormat x)"
proof (cases "v1_is_valid x \<and> v1_level x \<le> 28")
  case False
  then have "ConvertFromOldFormat x = 0"
    by (auto simp: ConvertFromOldFormat_def kMaxLevel_def Let_def)
  then show ?thesis by simp
next
  case True
  then have v: "v1_is_valid x" and l28: "v1_level x \<le> 28" by simp_all
  have f: "0 \<le> v1_face x" "v1_face x < 6"
    using v by (simp_all add: v1_face_nonneg v1_is_valid_iff)
  show ?thesis
  proof (cases "v1_level x = 0")
    case True
    have "push_bit 61 (word_of_int (v1_face x)) = compose_id (v1_face x) 0 0"
      by (simp add: compose_id_def)
    moreover have "canonical (compose_id (v1_face x) 0 0)"
      using f by (intro canonicalI) simp_all
    ultimately show ?thesis
      using ConvertFromOldFormat_face [OF v True] by simp
  next
    case False
    define n where "n = nat (v1_level x)"
    have n: "v1_level x = int n" "1 \<le> n" "n \<le> 28"
      using False l28 v1_level_nonneg [OF v] by (simp_all add: n_def)
    from ConvertFromOldFormat_deep [OF v n] obtain ds where
      ds: "length ds = n" "digits_ok ds"
      "ConvertFromOldFormat x = compose_id (v1_face x) (foldl path_step 0 ds) (int n)" by blast
    have "bit (foldl path_step 0 ds) j \<Longrightarrow> j < nat (2 * int n)" for j
      using foldl_path_step_bound [OF ds(2), of j] ds(1) by simp
    then have "canonical (compose_id (v1_face x) (foldl path_step 0 ds) (int n))"
      using f n(3) by (intro canonicalI) simp_all
    then show ?thesis by (simp add: ds(3))
  qed
qed

lemma canonical_FromFaceLevel: "canonical (v2_FromFaceLevel face level)"
proof -
  have "canonical (compose_id face 0 0)" if "0 \<le> face" "face \<le> 5"
    using that by (intro canonicalI) simp_all
  then show ?thesis
    unfolding v2_FromFaceLevel_def Let_def
    using canonical_ConvertFromOldFormat
    by (auto simp: compose_id_def kFaceBits_def)
qed

lemma parse_path_digits:
  assumes "parse_path cs q = Some r"
  shows "\<exists>ds. length ds = length cs \<and> digits_ok ds \<and> r = foldl path_step q ds"
  using assms
proof (induction cs arbitrary: q)
  case Nil
  then show ?case by simp
next
  case (Cons c cs)
  let ?d = "int (of_char c) - 48"
  from Cons.prems have c: "(48 :: nat) \<le> of_char c" "of_char c \<le> (51 :: nat)"
    and r: "parse_path cs (push_bit 2 q OR word_of_nat (of_char c - 48)) = Some r"
    by (simp_all split: if_splits)
  have "(word_of_nat (of_char c - 48) :: uint64) = word_of_int ?d"
    using c(1) by (simp add: of_nat_diff)
  then have "parse_path cs (path_step q ?d) = Some r" using r by (simp add: path_step_def)
  from Cons.IH [OF this] obtain ds where
    ds: "length ds = length cs" "digits_ok ds" "r = foldl path_step (path_step q ?d) ds" by blast
  have "digits_ok (?d # ds)" using c ds(2) by simp
  then show ?case using ds(1,3) by (intro exI [of _ "?d # ds"]) simp
qed

lemma narrow_int_eq: "narrow_int n = signed_take_bit 31 (int n)"
proof -
  have "(word_of_nat n :: 32 word) = word_of_int (int n)" by simp
  then show ?thesis unfolding narrow_int_def by (simp only: sint_sbintrunc') simp
qed

lemma narrow_int_le: "narrow_int n \<le> int n"
  by (simp add: narrow_int_eq signed_take_bit_int_less_eq_self_iff)

lemma narrow_int_small: "n < 2 ^ 31 \<Longrightarrow> narrow_int n = int n"
  unfolding narrow_int_eq by (rule signed_take_bit_int_eq_self) simp_all

text \<open>\<open>FromString\<close> returns an identifier built from three fields in range, unless the
  narrowed length of the path part is negative.\<close>

lemma canonical_FromString_level:
  assumes "parse_path (take (nat l) cs) 0 = Some p" and "0 \<le> face" and "face \<le> 5"
    and "0 \<le> l" and "l \<le> 28" and "l \<le> int (length cs)"
  shows "canonical (compose_id face p l)"
proof -
  from parse_path_digits [OF assms(1)] obtain ds where
    ds: "length ds = length (take (nat l) cs)" "digits_ok ds" "p = foldl path_step 0 ds"
    by blast
  have "length ds = nat l" using ds(1) assms(6) by simp
  then have "bit p j \<Longrightarrow> j < nat (2 * l)" for j
    using foldl_path_step_bound [OF ds(2), of j] ds(3) by simp
  then show ?thesis using assms(2-5) by (intro canonicalI) simp_all
qed

lemma canonical_FromString:
  assumes "length str < 2 ^ 31"
  shows "canonical (v2_FromString str)"
proof -
  have n: "narrow_int (length (drop m str)) = int (length (drop m str))" for m
    using assms by (intro narrow_int_small) simp
  have k: "push_bit (64 - kFaceBits) (word_of_int f) OR push_bit kLevelBits p OR word_of_int l
      = compose_id f p l" for f p l
    by (simp add: compose_id_def kFaceBits_def kLevelBits_def)
  have deep: "canonical (compose_id face p (int (length cs)))"
    if "parse_path cs 0 = Some p" "0 \<le> face" "face \<le> 5" "int (length cs) \<le> 28" for face p cs
    using canonical_FromString_level [of "int (length cs)" cs p face] that by simp
  show ?thesis
    unfolding v2_FromString_def Let_def k n
    using canonical_FromFaceLevel deep
    by (auto simp: kMaxLevel_def not_less split: option.splits simp del: length_drop)
qed

lemma bit_v2_path:
  assumes "bit (v2_path x) j"
  shows "j < nat (2 * v2_level x)"
proof -
  have l: "v2_level x \<noteq> 0" using assms by (auto simp: v2_path_def Let_def)
  have l0: "0 \<le> v2_level x" using uint_and_31 [of x]
    by (simp add: v2_level_def kLevelMask_def kLevelBits_def)
  show ?thesis
  proof (cases "v2_level x \<le> kMaxLevel")
    case True
    have mm: "push_bit (nat (v2_level x * 2)) 1 - 1 = (mask (nat (v2_level x * 2)) :: uint64)"
      by (simp add: mask_eq_exp_minus_1)
    have "v2_path x = (drop_bit kLevelBits x AND (push_bit kPathBits 1 - 1))
        AND mask (nat (v2_level x * 2))"
      using True l l0 unfolding v2_path_def Let_def mm by simp
    then have "bit (mask (nat (v2_level x * 2)) :: uint64) j"
      using assms by (simp add: bit_and_iff)
    then show ?thesis by (simp add: bit_mask_iff mult.commute)
  next
    case False
    have "v2_path x = take_bit 56 (drop_bit 5 x)"
      using False l l0 unfolding v2_path_def Let_def path_field_eq by simp
    then have "j < 56" using assms by (simp add: bit_take_bit_iff)
    then show ?thesis using False by (simp add: kMaxLevel_def)
  qed
qed

lemma v2_valid_face_level:
  assumes "v2_is_valid x"
  shows "0 \<le> v2_face x" and "v2_face x < 6" and "0 \<le> v2_level x" and "v2_level x \<le> 28"
proof -
  have "0 \<le> v2_face x \<and> v2_face x < 6 \<and> 0 \<le> v2_level x \<and> v2_level x \<le> 28"
  proof (cases "x = root_marker")
    case True
    then show ?thesis by (simp add: v2_face_def v2_level_def)
  next
    case False
    then show ?thesis
      using v2_is_valid_fields(1,2) [OF assms False]
      by (simp add: v2_face_def v2_level_def kFaceBits_def kLevelMask_def kLevelBits_def)
  qed
  then show "0 \<le> v2_face x" and "v2_face x < 6" and "0 \<le> v2_level x" and "v2_level x \<le> 28"
    by simp_all
qed

lemma v2_parent_form:
  assumes v: "v2_is_valid x" and l: "v2_level x \<noteq> 0"
  shows "v2_parent x =
           (if compose_id (v2_face x) (drop_bit 2 (v2_path x)) (v2_level x - 1) = 0 then root_marker
            else compose_id (v2_face x) (drop_bit 2 (v2_path x)) (v2_level x - 1))"
  using assms by (simp add: v2_parent_def Let_def compose_id_def kFaceBits_def kLevelBits_def)

lemma canonical_v2_parent: "canonical (v2_parent x)"
proof (cases "v2_is_valid x \<and> v2_level x \<noteq> 0")
  case False
  then show ?thesis by (auto simp: v2_parent_def)
next
  case True
  note fl = v2_valid_face_level [OF conjunct1 [OF True]]
  have "bit (drop_bit 2 (v2_path x)) j \<Longrightarrow> j < nat (2 * (v2_level x - 1))" for j
    using bit_v2_path [of x "2 + j"] by (simp add: bit_drop_bit_eq)
  then have "canonical (compose_id (v2_face x) (drop_bit 2 (v2_path x)) (v2_level x - 1))"
    using fl True by (intro canonicalI) simp_all
  then show ?thesis using True by (simp add: v2_parent_form)
qed

lemma v2_child_form:
  assumes "v2_is_valid x" and "0 \<le> c" "c < 4" and "v2_level x < 28"
  shows "v2_child x c = compose_id (v2_face x) (path_step (v2_path x) c) (v2_level x + 1)"
  using assms
  by (simp add: v2_child_def Let_def compose_id_def path_step_def kFaceBits_def kLevelBits_def
      kMaxLevel_def)

lemma canonical_v2_child: "canonical (v2_child x c)"
proof (cases "v2_is_valid x \<and> 0 \<le> c \<and> c < 4 \<and> v2_level x < 28")
  case False
  then show ?thesis by (auto simp: v2_child_def kMaxLevel_def)
next
  case True
  then have c: "0 \<le> c" "c < 4" by simp_all
  note fl = v2_valid_face_level [OF conjunct1 [OF True]]
  have "j < nat (2 * (v2_level x + 1))" if "bit (path_step (v2_path x) c) j" for j
  proof (cases "j < 2")
    case True
    then show ?thesis using fl(3) by simp
  next
    case False
    then have "bit (v2_path x) (j - 2)" using that by (simp add: bit_path_step [OF c])
    then show ?thesis using bit_v2_path [of x "j - 2"] False by simp
  qed
  then have "canonical (compose_id (v2_face x) (path_step (v2_path x) c) (v2_level x + 1))"
    using fl True by (intro canonicalI) simp_all
  then show ?thesis using True by (simp add: v2_child_form)
qed

section \<open>The loop of \<open>parent(int)\<close>\<close>

lemma v2_level_range: "0 \<le> v2_level x" "v2_level x < 32"
  using uint_and_31 [of x] by (simp_all add: v2_level_def kLevelMask_def kLevelBits_def)

lemma v2_level_compose_le:
  assumes f: "0 \<le> f" "f < 6" and l: "0 \<le> l" "l \<le> 28" and p: "\<And>j. bit p j \<Longrightarrow> j < nat (2 * l)"
  shows "v2_level (compose_id f p l) \<le> l"
proof -
  have p56: "bit p j \<Longrightarrow> j < 56" for j using p [of j] l by simp
  have f8: "f < 8" and l32: "l < 32" using f l by simp_all
  have "uint (compose_id f p l AND kLevelMask) = l"
    by (rule compose_id_fields_k [OF f(1) f8 l(1) l32], erule p56)
  then show ?thesis using l(1) by (simp add: v2_level_def)
qed

lemma v2_level_parent_less:
  assumes "0 < v2_level x"
  shows "v2_level (v2_parent x) < v2_level x"
proof (cases "v2_is_valid x")
  case False
  then have "v2_parent x = 0" by (simp add: v2_parent_def v2_None_def)
  moreover have "v2_level 0 = 0" by code_simp
  ultimately show ?thesis using assms by simp
next
  case True
  note fl = v2_valid_face_level [OF True]
  let ?c = "compose_id (v2_face x) (drop_bit 2 (v2_path x)) (v2_level x - 1)"
  have p: "bit (drop_bit 2 (v2_path x)) j \<Longrightarrow> j < nat (2 * (v2_level x - 1))" for j
    using bit_v2_path [of x "2 + j"] by (simp add: bit_drop_bit_eq)
  have l: "0 \<le> v2_level x - 1" "v2_level x - 1 \<le> 28" using assms fl(4) by simp_all
  have "v2_level ?c \<le> v2_level x - 1"
    by (rule v2_level_compose_le [OF fl(1,2) l], erule p)
  moreover have "v2_level root_marker = 0" by (simp add: v2_level_def)
  ultimately show ?thesis
    using assms True by (simp add: v2_parent_form)
qed

lemma parent_loop_returns:
  assumes "0 \<le> t"
  shows "\<exists>r. parent_loop x t = Some r \<and> (r = x \<or> canonical r) \<and> (v2_level x \<le> t \<longrightarrow> r = x)"
proof (induction "nat (v2_level x)" arbitrary: x rule: less_induct)
  case less
  show ?case
  proof (cases "t < v2_level x")
    case True
    then have pos: "0 < v2_level x" using assms by simp
    have "nat (v2_level (v2_parent x)) < nat (v2_level x)"
      using v2_level_parent_less [OF pos] pos by simp
    from less [OF this] obtain r where
      r: "parent_loop (v2_parent x) t = Some r" "r = v2_parent x \<or> canonical r" by blast
    have "parent_loop x t = Some r" using True r(1) by (subst parent_loop.simps) simp
    moreover have "canonical r" using r(2) canonical_v2_parent [of x] by auto
    ultimately show ?thesis using True by simp
  next
    case False
    then have "parent_loop x t = Some x" by (subst parent_loop.simps) simp
    then show ?thesis by simp
  qed
qed

lemma v2_parent_level_returns:
  "\<exists>r. v2_parent_level x t = Some r \<and> (r = x \<or> canonical r)"
proof (cases "t < 0 \<or> kMaxLevel < t")
  case True
  then show ?thesis by (auto simp: v2_parent_level_def)
next
  case False
  then have t: "0 \<le> t" by simp
  show ?thesis
    using False parent_loop_returns [OF t, of x] canonical_ConvertFromOldFormat
    by (auto simp: v2_parent_level_def Let_def)
qed

section \<open>The string form\<close>

lemma length_path_digits [simp]: "length (path_digits p n) = n"
  by (induction n) simp_all

lemma unat_and_3: "unat ((w :: uint64) AND 3) < 4"
proof -
  have "w AND 3 \<le> 3" by (rule word_and_le1)
  then have "unat (w AND 3) \<le> unat (3 :: uint64)" by (simp add: word_le_nat_alt)
  then show ?thesis by simp
qed

lemma of_char_digit:
  assumes "d < 4"
  shows "(of_char (char_of (48 + d) :: char) :: nat) = 48 + d"
  using assms by (simp add: of_char_of)

lemma set_path_digits: "set (path_digits p n) \<subseteq> set ''0123''"
proof (induction n)
  case 0
  then show ?case by simp
next
  case (Suc n)
  let ?d = "unat (drop_bit (2 * n) p AND 3)"
  have "?d = 0 \<or> ?d = 1 \<or> ?d = 2 \<or> ?d = 3" using unat_and_3 [of "drop_bit (2 * n) p"] by arith
  moreover have "\<forall>d \<in> set [0, 1, 2, 3 :: nat]. (char_of (48 + d) :: char) \<in> set ''0123''"
    by code_simp
  ultimately have "(char_of (48 + ?d) :: char) \<in> set ''0123''"
    by auto
  then show ?case using Suc by simp
qed

lemma bit_push_2_or_and_3:
  "bit (push_bit 2 q OR (w AND 3) :: uint64) j \<longleftrightarrow>
     (if j < 2 then bit w j else j < 64 \<and> bit q (j - 2))"
proof -
  have m3: "(3 :: uint64) = mask 2" by (simp add: mask_eq_exp_minus_1)
  have "bit w j \<Longrightarrow> j < 64" using bit_imp_le_length [of w j] by simp
  then show ?thesis
    unfolding m3
    by (auto simp only: bit_or_iff bit_push_bit_iff bit_and_iff bit_mask_iff possible_bit_word
        len_of_numeral_defs split: if_splits)
qed

lemma push_bit_digit_step:
  fixes p q :: uint64
  shows "push_bit m (push_bit 2 q OR (drop_bit m p AND 3)) OR take_bit m p
           = push_bit (m + 2) q OR take_bit (m + 2) p"
proof (rule bit_eqI)
  fix k assume "possible_bit TYPE(64 word) k"
  then have k: "k < 64" by simp
  have o: "bit (push_bit m (push_bit 2 q OR (drop_bit m p AND 3)) OR take_bit m p) k
      \<longleftrightarrow> (m \<le> k \<and> bit (push_bit 2 q OR (drop_bit m p AND 3)) (k - m)) \<or> (k < m \<and> bit p k)"
    using k by (simp only: bit_or_iff bit_push_bit_iff bit_take_bit_iff possible_bit_word) simp
  have r: "bit (push_bit (m + 2) q OR take_bit (m + 2) p) k
      \<longleftrightarrow> (m + 2 \<le> k \<and> bit q (k - (m + 2))) \<or> (k < m + 2 \<and> bit p k)"
    using k by (simp only: bit_or_iff bit_push_bit_iff bit_take_bit_iff possible_bit_word) simp
  consider "k < m" | "m \<le> k" "k < m + 2" | "m + 2 \<le> k" by linarith
  then have "(m \<le> k \<and> (if k - m < 2 then bit (drop_bit m p) (k - m)
        else k - m < 64 \<and> bit q (k - m - 2))) \<or> (k < m \<and> bit p k)
      \<longleftrightarrow> (m + 2 \<le> k \<and> bit q (k - (m + 2))) \<or> (k < m + 2 \<and> bit p k)"
  proof cases
    case 1
    then show ?thesis by simp
  next
    case 2
    then have "m + (k - m) = k" "k - m < 2" "\<not> m + 2 \<le> k" by simp_all
    then show ?thesis using 2 by (simp add: bit_drop_bit_eq)
  next
    case 3
    then have "k - m - 2 = k - (m + 2)" "\<not> k - m < 2" "k - m < 64" "m \<le> k" "\<not> k < m"
      "\<not> k < m + 2"
      using k by simp_all
    then show ?thesis using 3 by simp
  qed
  then show "bit (push_bit m (push_bit 2 q OR (drop_bit m p AND 3)) OR take_bit m p) k
      = bit (push_bit (m + 2) q OR take_bit (m + 2) p) k"
    unfolding o r bit_push_2_or_and_3 .
qed

lemma parse_path_path_digits:
  "parse_path (path_digits p n) q = Some (push_bit (2 * n) q OR take_bit (2 * n) p)"
proof (induction n arbitrary: q)
  case 0
  then show ?case by simp
next
  case (Suc n)
  let ?w = "drop_bit (2 * n) p AND 3"
  have d: "unat ?w < 4" by (rule unat_and_3)
  have oc: "(of_char (char_of (48 + unat ?w) :: char) :: nat) = 48 + unat ?w"
    using d by (rule of_char_digit)
  have s: "2 * Suc n = 2 * n + 2" by simp
  have "parse_path (path_digits p (Suc n)) q
      = parse_path (path_digits p n) (push_bit 2 q OR ?w)"
    using d by (simp add: oc)
  also have "\<dots> = Some (push_bit (2 * n) (push_bit 2 q OR ?w) OR take_bit (2 * n) p)"
    by (rule Suc.IH)
  finally show ?case
    unfolding s push_bit_digit_step .
qed

lemma face_digit:
  assumes "0 \<le> f" and "f < 6"
  shows "to_string f = [digit_char (nat f)]"
    and "stoi [digit_char (nat f)] = Some f"
    and "digit_char (nat f) \<noteq> CHR ''/''"
proof -
  have "f = 0 \<or> f = 1 \<or> f = 2 \<or> f = 3 \<or> f = 4 \<or> f = 5" using assms by arith
  moreover have "\<forall>g \<in> set [0, 1, 2, 3, 4, 5 :: int].
      to_string g = [digit_char (nat g)] \<and> stoi [digit_char (nat g)] = Some g
      \<and> digit_char (nat g) \<noteq> CHR ''/''"
    by code_simp
  ultimately show "to_string f = [digit_char (nat f)]"
    and "stoi [digit_char (nat f)] = Some f"
    and "digit_char (nat f) \<noteq> CHR ''/''"
    by auto
qed

lemma v2_ToString_forms:
  shows "\<not> v2_is_valid x \<Longrightarrow> v2_ToString x = ''INVALID''"
    and "v2_is_valid x \<Longrightarrow> v2_level x = 0 \<Longrightarrow> v2_ToString x = [digit_char (nat (v2_face x))]"
    and "v2_is_valid x \<Longrightarrow> 0 < v2_level x \<Longrightarrow>
           v2_ToString x = digit_char (nat (v2_face x)) # CHR ''/''
                             # path_digits (v2_path x) (nat (v2_level x))"
proof -
  show "\<not> v2_is_valid x \<Longrightarrow> v2_ToString x = ''INVALID''"
    by (simp add: v2_ToString_def)
  assume v: "v2_is_valid x"
  note fl = v2_valid_face_level [OF v]
  note fd = face_digit [OF fl(1,2)]
  show "v2_level x = 0 \<Longrightarrow> v2_ToString x = [digit_char (nat (v2_face x))]"
    using v fd(1) by (simp add: v2_ToString_def)
  show "0 < v2_level x \<Longrightarrow>
      v2_ToString x = digit_char (nat (v2_face x)) # CHR ''/''
                        # path_digits (v2_path x) (nat (v2_level x))"
    using v fd(1) by (simp add: v2_ToString_def Let_def)
qed

lemma v2_valid_deep_decompose:
  assumes v: "v2_is_valid x" and l: "0 < v2_level x"
  shows "compose_id (v2_face x) (v2_path x) (v2_level x) = x"
    and "take_bit (2 * nat (v2_level x)) (v2_path x) = v2_path x"
proof -
  have nr: "x \<noteq> root_marker" using l by (auto simp: v2_level_def)
  have lv: "v2_level x = uint (x AND 31)" and fc: "v2_face x = uint (drop_bit 61 x)"
    using nr by (simp_all add: v2_level_def v2_face_def kLevelMask_def kLevelBits_def kFaceBits_def)
  have l1: "1 \<le> uint (x AND 31)" using l lv by simp
  note fld = v2_is_valid_fields [OF v nr]
  have hi: "bit (take_bit 56 (drop_bit 5 x)) j \<Longrightarrow> j < nat (2 * uint (x AND 31))" for j
    using fld(3) [OF l1] .
  have "take_bit 56 (drop_bit 5 x) AND (push_bit (nat (uint (x AND 31) * 2)) 1 - 1)
      = take_bit 56 (drop_bit 5 x)"
  proof (rule bit_eqI)
    fix k
    have "push_bit (nat (uint (x AND 31) * 2)) 1 - 1 = (mask (nat (uint (x AND 31) * 2)) :: uint64)"
      by (simp add: mask_eq_exp_minus_1)
    then show "bit (take_bit 56 (drop_bit 5 x) AND (push_bit (nat (uint (x AND 31) * 2)) 1 - 1)) k
        = bit (take_bit 56 (drop_bit 5 x)) k"
      using hi [of k] by (auto simp: bit_and_iff bit_mask_iff mult.commute dest: bit_imp_le_length)
  qed
  then have pth: "v2_path x = take_bit 56 (drop_bit 5 x)"
    using l l1 fld(2) unfolding v2_path_def Let_def path_field_eq lv
    by (simp add: kMaxLevel_def del: push_bit_of_1)
  show "compose_id (v2_face x) (v2_path x) (v2_level x) = x"
    unfolding pth lv fc by (rule compose_id_decompose)
  show "take_bit (2 * nat (v2_level x)) (v2_path x) = v2_path x"
  proof (rule bit_eqI)
    fix k
    show "bit (take_bit (2 * nat (v2_level x)) (v2_path x)) k = bit (v2_path x) k"
      using bit_v2_path [of x k] by (auto simp: bit_take_bit_iff nat_mult_distrib)
  qed
qed

lemma find_char_second:
  "c \<noteq> CHR ''/'' \<Longrightarrow> find_char CHR ''/'' (c # CHR ''/'' # cs) = Some 1"
  by simp

lemma v2_FromString_ToString:
  assumes v: "v2_is_valid x" and c: "0 < v2_level x \<or> x = v2_FromFaceLevel (v2_face x) 0"
  shows "v2_FromString (v2_ToString x) = x"
proof (cases "0 < v2_level x")
  case True
  note fl = v2_valid_face_level [OF v]
  note fd = face_digit [OF fl(1,2)]
  let ?c = "digit_char (nat (v2_face x))" and ?n = "nat (v2_level x)"
  let ?ds = "path_digits (v2_path x) ?n"
  note dc = v2_valid_deep_decompose [OF v True]
  have s: "v2_ToString x = ?c # CHR ''/'' # ?ds" using v True by (rule v2_ToString_forms(3))
  have pp: "parse_path ?ds 0 = Some (v2_path x)"
    by (simp add: parse_path_path_digits dc(2))
  have len: "narrow_int (length ?ds) = v2_level x" "take (nat (v2_level x)) ?ds = ?ds"
    using True fl(4) by (simp_all add: narrow_int_small)
  have k: "push_bit (64 - kFaceBits) (word_of_int f) OR push_bit kLevelBits p OR word_of_int l
      = compose_id f p l" for f p l
    by (simp add: compose_id_def kFaceBits_def kLevelBits_def)
  have "v2_FromString (?c # CHR ''/'' # ?ds) = compose_id (v2_face x) (v2_path x) (v2_level x)"
    unfolding v2_FromString_def Let_def k find_char_second [OF fd(3)]
    using fd(2) fl True pp len
    by (simp add: kMaxLevel_def del: length_path_digits)
  then show ?thesis by (simp add: s dc(1))
next
  case False
  note fl = v2_valid_face_level [OF v]
  note fd = face_digit [OF fl(1,2)]
  have l0: "v2_level x = 0" using False fl(3) by simp
  have s: "v2_ToString x = [digit_char (nat (v2_face x))]" using v l0 by (rule v2_ToString_forms(2))
  have "v2_FromString [digit_char (nat (v2_face x))] = v2_FromFaceLevel (v2_face x) 0"
    using fd(2,3) fl by (simp add: v2_FromString_def)
  then show ?thesis using c False by (simp add: s)
qed

section \<open>The two orders on cells of one level\<close>

lemma foldl_v1_child_cell_id:
  assumes "digits_ok ds" and "2 * length ds \<le> n" and "n < 64"
  shows "foldl v1_child (cell_id n y) ds = cell_id (n - 2 * length ds) (foldl path_step y ds)"
  using assms
proof (induction ds arbitrary: n y)
  case Nil
  then show ?case by simp
next
  case (Cons d ds)
  then have d: "0 \<le> d" "d < 4" and ok: "digits_ok ds" and n: "2 \<le> n" "n < 64" by simp_all
  have "v1_child (cell_id n y) d = cell_id (n - 2) (path_step y d)"
    unfolding path_step_def using d n by (rule v1_child_cell_id)
  moreover have "2 * length ds \<le> n - 2" "n - 2 < 64" using Cons.prems by simp_all
  ultimately show ?case using Cons.IH [OF ok, of "n - 2" "path_step y d"] by simp
qed

lemma foldl_path_step_split:
  "foldl path_step q ds = push_bit (2 * length ds) q OR foldl path_step 0 ds"
proof (induction ds rule: rev_induct)
  case Nil
  then show ?case by simp
next
  case (snoc d ds)
  have "push_bit 2 (push_bit (2 * length ds) q) = push_bit (2 * length ds + 2) q"
    by (simp add: push_bit_add [symmetric] push_bit_eq_mult power_add)
  then show ?case
    using snoc by (simp add: path_step_def push_bit_or ac_simps del: push_bit_Suc)
qed

lemma unat_push_bit_64: "unat (push_bit n (w :: uint64)) = unat w * 2 ^ n mod 2 ^ 64"
proof -
  have "unat (push_bit n w) = take_bit 64 (push_bit n (unat w))"
    by (subst unsigned_push_bit_eq) simp
  then show ?thesis by (simp only: take_bit_eq_mod push_bit_eq_mult)
qed

lemma three_fields_unat:
  fixes F P c :: uint64
  assumes F: "unat F < 8" and P: "unat P < 2 ^ (61 - s)" and c: "unat c < 2 ^ s" and s: "s \<le> 61"
  shows "unat (push_bit 61 F + push_bit s P + c) = unat F * 2 ^ 61 + unat P * 2 ^ s + unat c"
    and "unat P * 2 ^ s + unat c < 2 ^ 61"
proof -
  have "(unat P + 1) * 2 ^ s \<le> 2 ^ (61 - s) * 2 ^ s"
    using P by (intro mult_le_mono1) simp
  also have "(2 :: nat) ^ (61 - s) * 2 ^ s = 2 ^ 61"
    using s by (simp flip: power_add)
  finally have b: "unat P * 2 ^ s + 2 ^ s \<le> 2 ^ 61" by (simp add: algebra_simps)
  then show r: "unat P * 2 ^ s + unat c < 2 ^ 61" using c by linarith
  have "unat F * 2 ^ 61 \<le> 7 * 2 ^ 61" using F by simp
  then have tot: "unat F * 2 ^ 61 + unat P * 2 ^ s + unat c < 2 ^ 64" using r by simp
  have pF: "unat (push_bit 61 F) = unat F * 2 ^ 61"
  proof -
    have "unat (push_bit 61 F) = (unat F * 2 ^ 61) mod 2 ^ 64"
      by (rule unat_push_bit_64)
    then show ?thesis using tot by simp
  qed
  have pP: "unat (push_bit s P) = unat P * 2 ^ s"
  proof -
    have "unat (push_bit s P) = (unat P * 2 ^ s) mod 2 ^ 64"
      by (rule unat_push_bit_64)
    then show ?thesis using tot by simp
  qed
  have "unat (push_bit 61 F + push_bit s P) = unat F * 2 ^ 61 + unat P * 2 ^ s"
    using tot by (simp add: unat_add_lem [THEN iffD1] pF pP)
  then show "unat (push_bit 61 F + push_bit s P + c) = unat F * 2 ^ 61 + unat P * 2 ^ s + unat c"
    using tot by (simp add: unat_add_lem [THEN iffD1])
qed

lemma three_fields_less_iff:
  fixes F P c F' P' :: uint64
  assumes "unat F < 8" "unat P < 2 ^ (61 - s)" "unat F' < 8" "unat P' < 2 ^ (61 - s)"
    and c: "unat c < 2 ^ s" and s: "s \<le> 61"
  shows "push_bit 61 F + push_bit s P + c < push_bit 61 F' + push_bit s P' + c
    \<longleftrightarrow> unat F < unat F' \<or> (unat F = unat F' \<and> unat P < unat P')"
proof -
  note u = three_fields_unat [OF assms(1,2) c s] three_fields_unat [OF assms(3,4) c s]
  define r where "r = unat P * 2 ^ s + unat c"
  define r' where "r' = unat P' * 2 ^ s + unat c"
  have rr: "r < 2 ^ 61" "r' < 2 ^ 61" using u(2,4) by (simp_all add: r_def r'_def)
  have lex: "unat F * 2 ^ 61 + r < unat F' * 2 ^ 61 + r'
      \<longleftrightarrow> unat F < unat F' \<or> (unat F = unat F' \<and> r < r')"
  proof (cases "unat F" "unat F'" rule: linorder_cases)
    case less
    then have "(unat F + 1) * 2 ^ 61 \<le> unat F' * 2 ^ 61" by (intro mult_le_mono1) simp
    then show ?thesis using less rr by (simp add: algebra_simps)
  next
    case equal
    then show ?thesis by simp
  next
    case greater
    then have "(unat F' + 1) * 2 ^ 61 \<le> unat F * 2 ^ 61" by (intro mult_le_mono1) simp
    then show ?thesis using greater rr by (simp add: algebra_simps)
  qed
  have "r < r' \<longleftrightarrow> unat P < unat P'" by (simp add: r_def r'_def)
  then have "unat F * 2 ^ 61 + r < unat F' * 2 ^ 61 + r'
      \<longleftrightarrow> unat F < unat F' \<or> (unat F = unat F' \<and> unat P < unat P')"
    using lex by simp
  then show ?thesis
    unfolding word_less_nat_alt u(1,3) r_def r'_def by (simp only: add.assoc)
qed
lemma unat_less_exp_of_bits:
  fixes P :: uint64
  assumes "\<And>j. bit P j \<Longrightarrow> j < k"
  shows "unat P < 2 ^ k"
proof -
  have "take_bit k P = P"
    by (rule bit_eqI) (use assms in \<open>auto simp: bit_take_bit_iff\<close>)
  then have "unat P = take_bit k (unat P)" by (metis unsigned_take_bit_eq)
  then show ?thesis by (metis take_bit_nat_less_exp)
qed

lemma compose_id_sum:
  assumes f: "0 \<le> f" "f < 8" and l: "0 \<le> l" "l < 32" and p: "\<And>j. bit p j \<Longrightarrow> j < 56"
  shows "compose_id f p l = push_bit 61 (word_of_int f) + push_bit 5 p + word_of_int l"
proof -
  have bl: "bit (word_of_int l :: uint64) j \<Longrightarrow> j < 5" for j
    using bit_word_of_int_bound [of l 5 j] l by simp
  have bf: "bit (word_of_int f :: uint64) j \<Longrightarrow> j < 3" for j
    using bit_word_of_int_bound [of f 3 j] f by simp
  have d1: "push_bit 61 (word_of_int f :: uint64) AND push_bit 5 p = 0"
    by (rule bit_eqI) (auto simp: bit_and_iff bit_push_bit_iff dest!: p)
  have d2: "(push_bit 61 (word_of_int f :: uint64) OR push_bit 5 p) AND word_of_int l = 0"
    by (rule bit_eqI) (auto simp: bit_and_iff bit_or_iff bit_push_bit_iff dest!: bl)
  show ?thesis
    unfolding compose_id_def
    by (simp only: disjunctive_add_eq_or [OF d1] disjunctive_add_eq_or [OF d2] or.assoc)
qed

text \<open>Cells of one level: the Compact raw values are in the order of the Primary ones.\<close>

lemma same_level_faces:
  "\<forall>f \<in> set [0, 1, 2, 3, 4, 5 :: int]. \<forall>g \<in> set [0, 1, 2, 3, 4, 5 :: int].
     (ConvertFromOldFormat (v1_FromFace f) < ConvertFromOldFormat (v1_FromFace g))
       = (v1_FromFace f < v1_FromFace g)"
  by code_simp

lemma ConvertFromOldFormat_same_level:
  assumes va: "v1_is_valid a" and vb: "v1_is_valid b"
    and lab: "v1_level a = v1_level b" and l28: "v1_level a \<le> 28"
  shows "ConvertFromOldFormat a < ConvertFromOldFormat b \<longleftrightarrow> a < b"
proof (cases "v1_level a = 0")
  case True
  have fa: "0 \<le> v1_face a" "v1_face a < 6" and fb: "0 \<le> v1_face b" "v1_face b < 6"
    using va vb by (simp_all add: v1_face_nonneg v1_is_valid_iff)
  have a: "a = v1_FromFace (v1_face a)" using va True by (rule v1_level_0_FromFace)
  have b: "b = v1_FromFace (v1_face b)" using vb True lab by (intro v1_level_0_FromFace) simp_all
  have "v1_face a \<in> set [0, 1, 2, 3, 4, 5]" "v1_face b \<in> set [0, 1, 2, 3, 4, 5]"
    using fa fb by auto
  then have "(ConvertFromOldFormat (v1_FromFace (v1_face a))
        < ConvertFromOldFormat (v1_FromFace (v1_face b)))
      = (v1_FromFace (v1_face a) < v1_FromFace (v1_face b))"
    using same_level_faces by blast
  then show ?thesis using a b by simp
next
  case False
  define n where "n = nat (v1_level a)"
  have n: "v1_level a = int n" "v1_level b = int n" "1 \<le> n" "n \<le> 28"
    using False l28 lab v1_level_nonneg [OF va] by (simp_all add: n_def)
  define m where "m = 60 - 2 * n"
  have m: "m + 1 + 2 * n = 61" "m < 64" "61 - (m + 1) = 2 * n" "m + 1 \<le> 61"
    using n(4) by (simp_all add: m_def)
  have form: "\<exists>P. ConvertFromOldFormat x = push_bit 61 (word_of_int (v1_face x)) + push_bit 5 P + word_of_int (int n)
      \<and> x = push_bit 61 (word_of_int (v1_face x)) + push_bit (m + 1) P + 2 ^ m
      \<and> unat P < 2 ^ (2 * n)"
    if v: "v1_is_valid x" and l: "v1_level x = int n" for x
  proof -
    from ConvertFromOldFormat_deep [OF v l n(3,4)] obtain ds where
      ds: "length ds = n" "digits_ok ds"
      "ConvertFromOldFormat x = compose_id (v1_face x) (foldl path_step 0 ds) (int n)"
      "foldl v1_child (v1_FromFace (v1_face x)) ds = x" by blast
    let ?P = "foldl path_step 0 ds" and ?F = "word_of_int (v1_face x) :: uint64"
    have f: "0 \<le> v1_face x" "v1_face x < 8"
      using v by (simp_all add: v1_face_nonneg v1_is_valid_iff)
    have pb: "bit ?P j \<Longrightarrow> j < 2 * n" for j
      using foldl_path_step_bound [OF ds(2), of j] ds(1) by simp
    have p56: "bit ?P j \<Longrightarrow> j < 56" for j using pb [of j] n(4) by simp
    have c: "ConvertFromOldFormat x = push_bit 61 ?F + push_bit 5 ?P + word_of_int (int n)"
      unfolding ds(3) using n(4) by (intro compose_id_sum f p56) simp_all
    have "x = cell_id (60 - 2 * length ds) (foldl path_step ?F ds)"
      using foldl_v1_child_cell_id [OF ds(2), of 60 ?F] ds(1,4) n(4)
      by (simp add: v1_FromFace_cell)
    also have "foldl path_step ?F ds = push_bit (2 * n) ?F OR ?P"
      using foldl_path_step_split [of ?F ds] ds(1) by simp
    also have "push_bit (2 * n) ?F OR ?P = push_bit (2 * n) ?F + ?P"
    proof -
      have "push_bit (2 * n) ?F AND ?P = 0"
        by (rule bit_eqI) (auto simp: bit_and_iff bit_push_bit_iff dest!: pb)
      then show ?thesis by (simp only: disjunctive_add_eq_or)
    qed
    finally have "x = push_bit (Suc m) (push_bit (2 * n) ?F + ?P) + 2 ^ m"
      by (simp add: cell_id_add ds(1) m_def)
    also have "push_bit (Suc m) (push_bit (2 * n) ?F + ?P)
        = push_bit (m + 1 + 2 * n) ?F + push_bit (m + 1) ?P"
      by (simp add: push_bit_add push_bit_eq_mult power_add algebra_simps)
    finally have x: "x = push_bit 61 ?F + push_bit (m + 1) ?P + 2 ^ m"
      by (simp only: m(1))
    have "unat ?P < 2 ^ (2 * n)" by (rule unat_less_exp_of_bits) (erule pb)
    then show ?thesis using c x by blast
  qed
  from form [OF va n(1)] obtain P where
    P: "ConvertFromOldFormat a = push_bit 61 (word_of_int (v1_face a)) + push_bit 5 P + word_of_int (int n)"
    "a = push_bit 61 (word_of_int (v1_face a)) + push_bit (m + 1) P + 2 ^ m"
    "unat P < 2 ^ (2 * n)" by blast
  from form [OF vb n(2)] obtain Q where
    Q: "ConvertFromOldFormat b = push_bit 61 (word_of_int (v1_face b)) + push_bit 5 Q + word_of_int (int n)"
    "b = push_bit 61 (word_of_int (v1_face b)) + push_bit (m + 1) Q + 2 ^ m"
    "unat Q < 2 ^ (2 * n)" by blast
  let ?F = "word_of_int (v1_face a) :: uint64" and ?G = "word_of_int (v1_face b) :: uint64"
  have F8: "unat ?F < 8" "unat ?G < 8"
    using va vb unat_less_exp_of_bits [of ?F 3] unat_less_exp_of_bits [of ?G 3]
      bit_word_of_int_bound [of "v1_face a" 3] bit_word_of_int_bound [of "v1_face b" 3]
    by (simp_all add: v1_face_nonneg v1_is_valid_iff)
  have "(2 :: nat) ^ (2 * n) \<le> 2 ^ 56" using n(4) by (intro power_increasing) simp_all
  then have P56: "unat P < 2 ^ (61 - 5)" "unat Q < 2 ^ (61 - 5)" using P(3) Q(3) by simp_all
  have Pm: "unat P < 2 ^ (61 - (m + 1))" "unat Q < 2 ^ (61 - (m + 1))"
    using P(3) Q(3) by (simp_all only: m(3))
  have cn: "unat (word_of_int (int n) :: uint64) < 2 ^ 5"
    using n(4) unat_less_exp_of_bits [of "word_of_int (int n) :: uint64" 5]
      bit_word_of_int_bound [of "int n" 5] by simp
  have cm: "unat (2 ^ m :: uint64) < 2 ^ (m + 1)"
    using m(2) by (simp add: unat_exp_64)
  have "ConvertFromOldFormat a < ConvertFromOldFormat b
      \<longleftrightarrow> unat ?F < unat ?G \<or> (unat ?F = unat ?G \<and> unat P < unat Q)"
    unfolding P(1) Q(1) by (rule three_fields_less_iff [OF F8(1) P56(1) F8(2) P56(2) cn]) simp
  moreover have "push_bit 61 ?F + push_bit (m + 1) P + 2 ^ m < push_bit 61 ?G + push_bit (m + 1) Q + 2 ^ m
      \<longleftrightarrow> unat ?F < unat ?G \<or> (unat ?F = unat ?G \<and> unat P < unat Q)"
    by (rule three_fields_less_iff [OF F8(1) Pm(1) F8(2) Pm(2) cm m(4)])
  ultimately show ?thesis using P(2) Q(2) by metis
qed
section \<open>The marker bit among valid identifiers\<close>

lemma v2_valid_inner_level_marker_bit:
  assumes v: "v2_is_valid x" and l: "0 < v2_level x" "v2_level x < 28"
  shows "\<not> bit x 60"
proof
  assume b: "bit x 60"
  have nr: "x \<noteq> root_marker" using l(1) by (auto simp: v2_level_def)
  then have lv: "v2_level x = uint (x AND 31)"
    by (simp add: v2_level_def kLevelMask_def kLevelBits_def)
  have "bit (take_bit 56 (drop_bit 5 x)) 55"
    using b by (simp add: bit_take_bit_iff bit_drop_bit_eq)
  then have "55 < nat (2 * uint (x AND 31))"
    using v2_is_valid_fields(3) [OF v nr, of 55] l(1) lv by simp
  then show False using l(2) lv by simp
qed

section \<open>The values the operations return\<close>

lemma operations_none_or_valid:
  "none_or_valid (ConvertFromOldFormat old_id)"
  "none_or_valid (v2_FromFaceLevel face level)"
  "length str < 2 ^ 31 \<Longrightarrow> none_or_valid (v2_FromString str)"
  "none_or_valid (v2_parent x)"
  "none_or_valid (v2_child x position)"
  "v2_is_valid x \<Longrightarrow>
     \<exists>r. v2_parent_level x target_level = Some r \<and> (r = v2_None \<or> v2_is_valid r)"
proof -
  show "\<exists>r. v2_parent_level x target_level = Some r \<and> (r = v2_None \<or> v2_is_valid r)"
    if "v2_is_valid x"
  proof -
    from v2_parent_level_returns [of x target_level] obtain r where
      r: "v2_parent_level x target_level = Some r" "r = x \<or> canonical r" by blast
    have "r = v2_None \<or> v2_is_valid r"
      using r(2) that canonical_none_or_valid [of r] by (auto simp: none_or_valid_def)
    then show ?thesis using r(1) by blast
  qed
qed (simp_all add: canonical_none_or_valid canonical_ConvertFromOldFormat
    canonical_FromFaceLevel canonical_FromString canonical_v2_parent canonical_v2_child)

section \<open>The claims\<close>

text \<open>
  C6. For every valid Primary identifier \<open>x\<close>, \<open>range_min(x) \<le> x \<le> range_max(x)\<close> and
  \<open>range_min(x) \<le> range_max(x)\<close>, the two bounds being \<open>id - (lsb - 1)\<close> and
  \<open>id + (lsb - 1)\<close>; and \<open>Sentinel().range_min() = Sentinel().range_max() = Sentinel()\<close>.
\<close>

theorem v1_range_bounds:
  "(v1_is_valid x \<longrightarrow>
      v1_range_min x \<le> x \<and> x \<le> v1_range_max x \<and> v1_range_min x \<le> v1_range_max x
      \<and> v1_range_min x = x - (v1_lsb x - 1) \<and> v1_range_max x = x + (v1_lsb x - 1))
   \<and> v1_range_min v1_Sentinel = v1_Sentinel
   \<and> v1_range_max v1_Sentinel = v1_Sentinel"
proof -
  have "v1_range_min v1_Sentinel = v1_Sentinel" "v1_range_max v1_Sentinel = v1_Sentinel"
    by (simp_all add: v1_range_min_def v1_range_max_def v1_lsb_def v1_Sentinel_def)
  moreover have "v1_range_min x \<le> v1_range_max x" if "v1_is_valid x"
    using v1_range_order [OF that] by (rule order_trans)
  ultimately show ?thesis
    using v1_range_order [of x] by (simp add: v1_range_min_def v1_range_max_def)
qed

theorem v1_range_bounds_witness:
  "v1_is_valid 0x3400000000000000
   \<and> v1_range_min 0x3400000000000000 = 0x3000000000000001
   \<and> v1_range_max 0x3400000000000000 = 0x37FFFFFFFFFFFFFF
   \<and> v1_range_min 0x3400000000000000 \<le> 0x3400000000000000
   \<and> 0x3400000000000000 \<le> v1_range_max 0x3400000000000000
   \<and> v1_range_min 0x3400000000000000 \<le> v1_range_max 0x3400000000000000"
proof -
  have v: "v1_is_valid 0x3400000000000000"
    by (simp add: v1_is_valid_def v1_face_def v1_lsb_def v1_kPosBits_def v1_kMaxLevel_def
        kMaxCellLevel_def v1_kNumFaces_def)
  have "v1_range_min 0x3400000000000000 = 0x3000000000000001"
    and "v1_range_max 0x3400000000000000 = 0x37FFFFFFFFFFFFFF"
    by (simp_all add: v1_range_min_def v1_range_max_def v1_lsb_def)
  then show ?thesis
    using v v1_range_bounds [of "0x3400000000000000"] by simp
qed

text \<open>
  C5. For every valid Primary identifier \<open>x\<close> with \<open>level(x) < MaxDepth\<close> and every position
  \<open>p\<close> in \<open>{0,1,2,3}\<close>: \<open>x.child(p).parent() = x\<close>, the four children are pairwise distinct,
  and \<open>x.contains(x.child(p))\<close>.
\<close>

theorem v1_child_parent_contains:
  assumes "v1_is_valid x" and "v1_level x < v1_kMaxLevel"
  shows "(\<forall>p \<in> {0, 1, 2, 3}. v1_parent (v1_child x p) = x \<and> v1_contains x (v1_child x p))
    \<and> distinct [v1_child x 0, v1_child x 1, v1_child x 2, v1_child x 3]"
proof -
  have l: "v1_level x < 30" using assms(2) by (simp add: v1_kMaxLevel_def kMaxCellLevel_def)
  have p: "v1_parent (v1_child x p) = x \<and> v1_contains x (v1_child x p)
      \<and> v1_child_position (v1_child x p) = p" if "0 \<le> p" "p < 4" for p
    using v1_child_props(4,5) [OF assms(1) l that] v1_contains_child [OF assms(1) l that] by simp
  have d: "v1_child x p \<noteq> v1_child x r" if "0 \<le> p" "p < 4" "0 \<le> r" "r < 4" "p \<noteq> r" for p r
    using p [OF that(1,2)] p [OF that(3,4)] that(5) by metis
  have "distinct [v1_child x 0, v1_child x 1, v1_child x 2, v1_child x 3]"
    using d [of 0 1] d [of 0 2] d [of 0 3] d [of 1 2] d [of 1 3] d [of 2 3] by simp
  then show ?thesis using p [of 0] p [of 1] p [of 2] p [of 3] by simp
qed

theorem v1_child_parent_contains_witness:
  "v1_is_valid 0x3400000000000000 \<and> v1_level 0x3400000000000000 < v1_kMaxLevel
   \<and> v1_child 0x3400000000000000 2 = 0x3500000000000000
   \<and> v1_parent (v1_child 0x3400000000000000 2) = 0x3400000000000000
   \<and> v1_contains 0x3400000000000000 (v1_child 0x3400000000000000 2)
   \<and> distinct [v1_child 0x3400000000000000 0, v1_child 0x3400000000000000 1,
        v1_child 0x3400000000000000 2, v1_child 0x3400000000000000 3]"
proof -
  have v: "v1_is_valid 0x3400000000000000" by code_simp
  have l: "v1_level 0x3400000000000000 < v1_kMaxLevel" by code_simp
  have c: "v1_child 0x3400000000000000 2 = 0x3500000000000000" by code_simp
  show ?thesis
    using v l c v1_child_parent_contains [OF v l] by simp
qed

text \<open>
  C1, as stated, fails for a Primary identifier deeper than 28: the round trip of the
  level-30 cell with id 1 gives \<open>None()\<close>, not its level-28 ancestor.
\<close>

theorem convert_round_trip_deep_counterexample:
  "v1_is_valid 1 \<and> kMaxLevel < v1_level 1
   \<and> ConvertToOldFormat (ConvertFromOldFormat 1) = v1_None
   \<and> v1_parent_level 1 kMaxLevel = 16
   \<and> ConvertToOldFormat (ConvertFromOldFormat 1) \<noteq> v1_parent_level 1 kMaxLevel"
  by code_simp

text \<open>
  C1, amended. For every valid Primary identifier \<open>x\<close> with \<open>level(x) \<le> 28\<close>,
  \<open>ConvertFromOldFormat\<close> followed by \<open>ConvertToOldFormat\<close> reproduces \<open>x\<close>. For every valid
  \<open>x\<close> with \<open>level(x) > 28\<close>, \<open>ConvertFromOldFormat\<close> returns 0 and the round trip gives
  \<open>None()\<close>, and the round trip of \<open>x.parent(28)\<close> reproduces \<open>x.parent(28)\<close>.
\<close>

theorem convert_round_trip:
  assumes "v1_is_valid x"
  shows "(v1_level x \<le> kMaxLevel \<longrightarrow> ConvertToOldFormat (ConvertFromOldFormat x) = x)
    \<and> (kMaxLevel < v1_level x \<longrightarrow>
          ConvertFromOldFormat x = 0
          \<and> ConvertToOldFormat (ConvertFromOldFormat x) = v1_None
          \<and> ConvertToOldFormat (ConvertFromOldFormat (v1_parent_level x kMaxLevel))
              = v1_parent_level x kMaxLevel)"
proof (intro conjI impI)
  assume "v1_level x \<le> kMaxLevel"
  then show "ConvertToOldFormat (ConvertFromOldFormat x) = x"
    using assms by (simp add: ConvertToOldFormat_ConvertFromOldFormat kMaxLevel_def)
next
  assume deep: "kMaxLevel < v1_level x"
  then show "ConvertFromOldFormat x = 0"
    using assms by (simp add: ConvertFromOldFormat_def Let_def)
  from deep show "ConvertToOldFormat (ConvertFromOldFormat x) = v1_None"
    using assms by (simp add: ConvertFromOldFormat_def ConvertToOldFormat_def Let_def)
  have t: "(0::int) \<le> 28" "28 \<le> v1_level x" using deep by (simp_all add: kMaxLevel_def)
  note pl = v1_parent_level_props [OF assms t]
  show "ConvertToOldFormat (ConvertFromOldFormat (v1_parent_level x kMaxLevel))
      = v1_parent_level x kMaxLevel"
    using pl(1,2) by (simp add: ConvertToOldFormat_ConvertFromOldFormat kMaxLevel_def)
qed

theorem convert_round_trip_witness:
  "v1_is_valid 0x3500000000000000 \<and> v1_level 0x3500000000000000 \<le> kMaxLevel
   \<and> ConvertFromOldFormat 0x3500000000000000 = 0x2000000000000142
   \<and> ConvertToOldFormat (ConvertFromOldFormat 0x3500000000000000) = 0x3500000000000000
   \<and> v1_is_valid 1 \<and> kMaxLevel < v1_level 1
   \<and> ConvertFromOldFormat 1 = 0
   \<and> ConvertToOldFormat (ConvertFromOldFormat 1) = v1_None
   \<and> ConvertToOldFormat (ConvertFromOldFormat (v1_parent_level 1 kMaxLevel))
       = v1_parent_level 1 kMaxLevel"
proof -
  have a: "v1_is_valid 0x3500000000000000" "v1_level 0x3500000000000000 \<le> kMaxLevel"
    "ConvertFromOldFormat 0x3500000000000000 = 0x2000000000000142"
    by code_simp+
  have b: "v1_is_valid 1" "kMaxLevel < v1_level 1" by code_simp+
  have c: "ConvertToOldFormat (ConvertFromOldFormat 0x3500000000000000) = 0x3500000000000000"
    using convert_round_trip [OF a(1)] a(2) by blast
  have d: "ConvertFromOldFormat 1 = 0"
    "ConvertToOldFormat (ConvertFromOldFormat 1) = v1_None"
    "ConvertToOldFormat (ConvertFromOldFormat (v1_parent_level 1 kMaxLevel))
       = v1_parent_level 1 kMaxLevel"
    using convert_round_trip [OF b(1)] b(2) by blast+
  show ?thesis
    by (intro conjI a b c d)
qed

text \<open>
  C2. For every valid Primary identifier deeper than the Compact cap of 28,
  \<open>ConvertFromOldFormat\<close> returns 0, the invalid Compact identifier, and not the
  identifier of the depth-28 ancestor, which is a valid one of level 28; the truncation to
  \<open>parent(28)\<close> is made by the callers before the conversion: the construction from a
  point, \<open>FromToken\<close>, \<open>FromDebugString\<close> and \<open>Decode\<close>.
\<close>

theorem convert_from_too_deep:
  assumes "v1_is_valid x" and "kMaxLevel < v1_level x"
  shows "ConvertFromOldFormat x = 0
    \<and> v2_is_valid (ConvertFromOldFormat x) = False
    \<and> v2_is_valid (ConvertFromOldFormat (v1_parent_level x kMaxLevel))
    \<and> v2_level (ConvertFromOldFormat (v1_parent_level x kMaxLevel)) = kMaxLevel
    \<and> ConvertFromOldFormat x \<noteq> ConvertFromOldFormat (v1_parent_level x kMaxLevel)
    \<and> v2_FromPoint (\<lambda>point. x) point = ConvertFromOldFormat (v1_parent_level x kMaxLevel)
    \<and> v2_FromToken (\<lambda>token. x) token = ConvertFromOldFormat (v1_parent_level x kMaxLevel)
    \<and> v2_FromDebugString (\<lambda>str. x) str = ConvertFromOldFormat (v1_parent_level x kMaxLevel)
    \<and> v2_Decode (\<lambda>decoder. Some x) decoder new_id
        = (True, ConvertFromOldFormat (v1_parent_level x kMaxLevel))"
proof -
  have z: "ConvertFromOldFormat x = 0"
    using assms by (simp add: ConvertFromOldFormat_def Let_def)
  have inv: "v2_is_valid 0 = False" by (simp add: v2_is_valid_def)
  have t: "(0::int) \<le> 28" "28 \<le> v1_level x" using assms(2) by (simp_all add: kMaxLevel_def)
  note pl = v1_parent_level_props [OF assms(1) t]
  have l28: "v1_level (v1_parent_level x 28) \<le> 28" using pl(2) by simp
  note cf = ConvertFromOldFormat_props [OF pl(1) l28]
  have "ConvertFromOldFormat (v1_parent_level x 28) \<noteq> 0" using cf(1) inv by auto
  moreover have "v2_FromToken (\<lambda>token. x) token = ConvertFromOldFormat (v1_parent_level x kMaxLevel)"
    "v2_FromDebugString (\<lambda>str. x) str = ConvertFromOldFormat (v1_parent_level x kMaxLevel)"
    "v2_FromPoint (\<lambda>point. x) point = ConvertFromOldFormat (v1_parent_level x kMaxLevel)"
    "v2_Decode (\<lambda>decoder. Some x) decoder new_id
       = (True, ConvertFromOldFormat (v1_parent_level x kMaxLevel))"
    using assms
    by (simp_all add: v2_FromToken_def v2_FromDebugString_def v2_FromPoint_def v2_Decode_def Let_def)
  ultimately show ?thesis
    using z inv cf(1,2) pl(2) by (simp add: kMaxLevel_def)
qed

theorem convert_from_too_deep_witness:
  "v1_is_valid 1 \<and> kMaxLevel < v1_level 1
   \<and> ConvertFromOldFormat 1 = 0
   \<and> ConvertFromOldFormat (v1_parent_level 1 kMaxLevel) = 28
   \<and> v2_is_valid (ConvertFromOldFormat (v1_parent_level 1 kMaxLevel))
   \<and> v2_FromToken (\<lambda>token. 1) ''0000000000000001'' = 28
   \<and> v2_Decode (\<lambda>decoder. Some 1) () 0 = (True, 28)"
proof -
  have a: "v1_is_valid 1" "kMaxLevel < v1_level 1" by code_simp+
  have b: "ConvertFromOldFormat (v1_parent_level 1 kMaxLevel) = 28" by code_simp
  show ?thesis
    using a b convert_from_too_deep [OF a, of "()" "''0000000000000001''" "[]" "()" 0]
    by simp
qed

text \<open>
  C3, as stated, fails: the face-0 root cell is less than its child 3 under \<open>operator<\<close>,
  while its raw value \<open>new_id()\<close> is the greater one.
\<close>

theorem v2_less_raw_counterexample:
  "v2_FromFace 0 = 0x1000000000000000 \<and> v2_child (v2_FromFace 0) 3 = 97
   \<and> v2_less (v2_FromFace 0) (v2_child (v2_FromFace 0) 3)
   \<and> (v2_FromFace 0 < v2_child (v2_FromFace 0) 3) = False"
  by code_simp

text \<open>
  C3, amended. For all Compact identifiers \<open>x\<close> and \<open>y\<close>, \<open>x < y\<close> holds if and only if the raw
  64-bit value of the Primary identifier \<open>ToOldFormat(x)\<close> is less than that of
  \<open>ToOldFormat(y)\<close>; so the Compact identifiers converted from two valid Primary identifiers
  of level at most 28 compare as those Primary identifiers do, and a list sorted with
  \<open>operator<\<close> is in ascending order of the Primary raw values, not of \<open>new_id()\<close>. The order
  of \<open>new_id()\<close> is the order of \<open>operator<\<close> between the Compact identifiers converted from
  two valid Primary identifiers of one and the same level, at most 28.
\<close>

theorem v2_less_primary_order:
  "(v2_less x y \<longleftrightarrow> ConvertToOldFormat x < ConvertToOldFormat y)
   \<and> (v1_is_valid a \<and> v1_level a \<le> kMaxLevel \<and> v1_is_valid b \<and> v1_level b \<le> kMaxLevel
        \<longrightarrow> (v2_less (ConvertFromOldFormat a) (ConvertFromOldFormat b) \<longleftrightarrow> a < b))
   \<and> (sorted_wrt v2_less xs \<longleftrightarrow> sorted_wrt (<) (map ConvertToOldFormat xs))
   \<and> (v1_is_valid c \<and> v1_is_valid d \<and> v1_level c = v1_level d \<and> v1_level c \<le> kMaxLevel
        \<longrightarrow> (v2_less (ConvertFromOldFormat c) (ConvertFromOldFormat d)
              \<longleftrightarrow> ConvertFromOldFormat c < ConvertFromOldFormat d))"
proof -
  have s: "sorted_wrt v2_less xs \<longleftrightarrow> sorted_wrt (<) (map ConvertToOldFormat xs)"
    by (simp add: sorted_wrt_map v2_less_def [abs_def] v1_less_def)
  have l: "v2_less (ConvertFromOldFormat c) (ConvertFromOldFormat d)
      \<longleftrightarrow> ConvertFromOldFormat c < ConvertFromOldFormat d"
    if "v1_is_valid c" "v1_is_valid d" "v1_level c = v1_level d" "v1_level c \<le> kMaxLevel"
  proof -
    have "v1_level c \<le> 28" "v1_level d \<le> 28" using that by (simp_all add: kMaxLevel_def)
    then show ?thesis
      using that ConvertFromOldFormat_same_level [of c d]
      by (simp add: v2_less_def v1_less_def ConvertToOldFormat_ConvertFromOldFormat)
  qed
  have "v2_less x y \<longleftrightarrow> ConvertToOldFormat x < ConvertToOldFormat y"
    by (simp add: v2_less_def v1_less_def)
  moreover have "v1_is_valid a \<and> v1_level a \<le> kMaxLevel \<and> v1_is_valid b \<and> v1_level b \<le> kMaxLevel
        \<longrightarrow> (v2_less (ConvertFromOldFormat a) (ConvertFromOldFormat b) \<longleftrightarrow> a < b)"
    by (simp add: v2_less_def v1_less_def ConvertToOldFormat_ConvertFromOldFormat kMaxLevel_def)
  ultimately show ?thesis using s l by blast
qed

theorem v2_less_primary_order_witness:
  "v1_is_valid 0x1000000000000000 \<and> v1_level 0x1000000000000000 \<le> kMaxLevel
   \<and> v1_is_valid 0x1C00000000000000 \<and> v1_level 0x1C00000000000000 \<le> kMaxLevel
   \<and> v1_is_valid 0x0400000000000000
   \<and> v1_level 0x0400000000000000 = v1_level 0x1C00000000000000
   \<and> ConvertFromOldFormat 0x1000000000000000 = 0x1000000000000000
   \<and> ConvertFromOldFormat 0x1C00000000000000 = 97
   \<and> ConvertFromOldFormat 0x0400000000000000 = 1
   \<and> v2_less 0x1000000000000000 97 \<and> v2_less 1 97"
proof -
  have a: "v1_is_valid 0x1000000000000000" "v1_level 0x1000000000000000 \<le> kMaxLevel"
    "v1_is_valid 0x1C00000000000000" "v1_level 0x1C00000000000000 \<le> kMaxLevel"
    "v1_is_valid 0x0400000000000000" "v1_level 0x0400000000000000 \<le> kMaxLevel"
    "v1_level 0x0400000000000000 = v1_level 0x1C00000000000000"
    by code_simp+
  have b: "ConvertFromOldFormat 0x1000000000000000 = 0x1000000000000000"
    "ConvertFromOldFormat 0x1C00000000000000 = 97"
    "ConvertFromOldFormat 0x0400000000000000 = 1"
    by code_simp+
  have c: "(1 :: uint64) < 97" "(0x1000000000000000 :: uint64) < 0x1C00000000000000" by simp_all
  show ?thesis
    using a b c v2_less_primary_order [of "0x1000000000000000" 97 "0x1000000000000000"
        "0x1C00000000000000" "[]" "0x0400000000000000" "0x1C00000000000000"]
    by auto
qed

text \<open>
  C4, last part as stated, fails: the bit that marks the face-0 root cell is not otherwise
  unused, since the valid level-28 cell \<open>0/2000000000000000000000000000\<close> has it set too.
\<close>

theorem root_marker_bit_counterexample:
  "v2_FromString ''0/2000000000000000000000000000'' = 0x100000000000001C
   \<and> v2_is_valid 0x100000000000001C
   \<and> (0x100000000000001C = v2_FromFaceLevel 0 0) = False
   \<and> bit (0x100000000000001C :: uint64) (kLevelBits + kPathBits - 1)
   \<and> bit (v2_FromFaceLevel 0 0) (kLevelBits + kPathBits - 1)"
  by code_simp

text \<open>
  C4, amended. \<open>FromFaceLevel(0, 0)\<close> returns an identifier distinct from \<open>None()\<close> that is
  valid with face 0 and level 0, and \<open>FromFaceLevel(0,0).child(p).parent()\<close> is
  \<open>FromFaceLevel(0,0)\<close> for each of the four positions. Its encoding is the single bit
  \<open>1 << (kLevelBits + kPathBits - 1)\<close>, the highest bit of the path field. No valid
  identifier of level 1 to 27 has this bit set, but the bit is not otherwise unused: the
  valid level-28 identifier with raw value \<open>(1 << 60) | 28\<close> has it set too.
\<close>

theorem root_cell_navigation:
  "(v2_FromFaceLevel 0 0 = v2_None) = False
   \<and> v2_is_valid (v2_FromFaceLevel 0 0)
   \<and> v2_face (v2_FromFaceLevel 0 0) = 0
   \<and> v2_level (v2_FromFaceLevel 0 0) = 0
   \<and> v2_parent (v2_child (v2_FromFaceLevel 0 0) 0) = v2_FromFaceLevel 0 0
   \<and> v2_parent (v2_child (v2_FromFaceLevel 0 0) 1) = v2_FromFaceLevel 0 0
   \<and> v2_parent (v2_child (v2_FromFaceLevel 0 0) 2) = v2_FromFaceLevel 0 0
   \<and> v2_parent (v2_child (v2_FromFaceLevel 0 0) 3) = v2_FromFaceLevel 0 0
   \<and> v2_FromFaceLevel 0 0 = push_bit (kLevelBits + kPathBits - 1) 1
   \<and> (v2_is_valid x \<and> 0 < v2_level x \<and> v2_level x < kMaxLevel
        \<longrightarrow> \<not> bit x (kLevelBits + kPathBits - 1))
   \<and> v2_is_valid (push_bit (kLevelBits + kPathBits - 1) 1 OR 28)
   \<and> v2_level (push_bit (kLevelBits + kPathBits - 1) 1 OR 28) = 28
   \<and> bit (push_bit (kLevelBits + kPathBits - 1) 1 OR 28 :: uint64) (kLevelBits + kPathBits - 1)"
proof -
  have k: "kLevelBits + kPathBits - 1 = 60"
    by (simp add: kLevelBits_def kPathBits_def kFaceBits_def)
  have a: "(v2_FromFaceLevel 0 0 = v2_None) = False"
    "v2_is_valid (v2_FromFaceLevel 0 0)"
    "v2_face (v2_FromFaceLevel 0 0) = 0"
    "v2_level (v2_FromFaceLevel 0 0) = 0"
    "v2_parent (v2_child (v2_FromFaceLevel 0 0) 0) = v2_FromFaceLevel 0 0"
    "v2_parent (v2_child (v2_FromFaceLevel 0 0) 1) = v2_FromFaceLevel 0 0"
    "v2_parent (v2_child (v2_FromFaceLevel 0 0) 2) = v2_FromFaceLevel 0 0"
    "v2_parent (v2_child (v2_FromFaceLevel 0 0) 3) = v2_FromFaceLevel 0 0"
    "v2_FromFaceLevel 0 0 = push_bit (kLevelBits + kPathBits - 1) 1"
    by code_simp+
  have b: "v2_is_valid (push_bit (kLevelBits + kPathBits - 1) 1 OR 28)"
    "v2_level (push_bit (kLevelBits + kPathBits - 1) 1 OR 28) = 28"
    "bit (push_bit (kLevelBits + kPathBits - 1) 1 OR 28 :: uint64) (kLevelBits + kPathBits - 1)"
    by code_simp+
  have c: "v2_is_valid x \<and> 0 < v2_level x \<and> v2_level x < kMaxLevel
        \<longrightarrow> \<not> bit x (kLevelBits + kPathBits - 1)"
    unfolding k using v2_valid_inner_level_marker_bit [of x] by (simp add: kMaxLevel_def)
  show ?thesis
    by (intro conjI a b c)
qed

theorem root_cell_navigation_witness:
  "v2_is_valid 0x2000000000000142 \<and> 0 < v2_level 0x2000000000000142
   \<and> v2_level 0x2000000000000142 < kMaxLevel
   \<and> \<not> bit (0x2000000000000142 :: uint64) (kLevelBits + kPathBits - 1)"
proof -
  have a: "v2_is_valid 0x2000000000000142" "0 < v2_level 0x2000000000000142"
    "v2_level 0x2000000000000142 < kMaxLevel"
    by code_simp+
  show ?thesis
    using a root_cell_navigation [of "0x2000000000000142"] by blast
qed

text \<open>
  C8. The concrete scenarios of the string codec on the Compact type:
  \<open>FromFace(0).ToString() = "0"\<close>, \<open>FromFace(3).child(2).ToString() = "3/2"\<close>,
  \<open>FromString("3/2")\<close> has level 1 and child position 2, and \<open>FromString("6/0")\<close> and
  \<open>FromString("0/4")\<close> are invalid.
\<close>

theorem string_codec_scenarios:
  "v2_ToString (v2_FromFace 0) = ''0''
   \<and> v2_ToString (v2_child (v2_FromFace 3) 2) = ''3/2''
   \<and> v2_level (v2_FromString ''3/2'') = 1
   \<and> v2_child_position (v2_FromString ''3/2'') = 2
   \<and> v2_is_valid (v2_FromString ''6/0'') = False
   \<and> v2_is_valid (v2_FromString ''0/4'') = False"
  by code_simp

text \<open>
  C9. The claim is that every Compact identifier returned by \<open>ConvertFromOldFormat\<close>,
  \<open>FromFaceLevel\<close>, \<open>FromString\<close>, \<open>parent\<close> and \<open>child\<close> is \<open>None()\<close> (raw value 0) or satisfies
  \<open>is_valid()\<close>. The code breaks it in two places. \<open>FromString\<close> narrows the length of the
  path part to a 32-bit \<open>int\<close> before its test \<open>level > kMaxLevel\<close>: for \<open>"0/"\<close> followed by
  \<open>2^31\<close> characters the narrowed level is negative, the test and the loop are passed over,
  and the value returned is \<open>0xFFFFFFFF80000000\<close>, which is not 0 and fails \<open>is_valid()\<close>.
  \<open>parent(int)\<close> has no \<open>is_valid()\<close> test, unlike \<open>parent()\<close> and \<open>child\<close>: the receiver
  \<open>0x1000000000000001\<close> fails \<open>is_valid()\<close> and is returned unchanged for target level 1.
  Everywhere else the claim holds (lemma \<open>operations_none_or_valid\<close>).
\<close>

theorem produced_ids_narrowed_length:
  "v2_FromString (''0/'' @ replicate (2 ^ 31) CHR ''0'') = 0xFFFFFFFF80000000
   \<and> (v2_FromString (''0/'' @ replicate (2 ^ 31) CHR ''0'') = v2_None) = False
   \<and> v2_is_valid (v2_FromString (''0/'' @ replicate (2 ^ 31) CHR ''0'')) = False
   \<and> v2_is_valid 0x1000000000000001 = False
   \<and> v2_parent_level 0x1000000000000001 1 = Some 0x1000000000000001"
proof -
  have s: "stoi ''0'' = Some 0" by code_simp
  have n: "narrow_int 2147483648 = - 2147483648" unfolding narrow_int_eq by simp
  have r: "v2_FromString (''0/'' @ replicate (2 ^ 31) CHR ''0'') = 0xFFFFFFFF80000000"
    by (simp add: v2_FromString_def s n kMaxLevel_def kFaceBits_def kLevelBits_def)
  have v: "(0xFFFFFFFF80000000 = v2_None) = False" "v2_is_valid 0xFFFFFFFF80000000 = False"
    "v2_is_valid 0x1000000000000001 = False"
    "v2_parent_level 0x1000000000000001 1 = Some 0x1000000000000001"
    by code_simp+
  show ?thesis unfolding r by (intro conjI v refl)
qed

text \<open>
  C10. \<open>parent(target_level)\<close> returns the identifier unchanged when
  \<open>level() \<le> target_level \<le> 28\<close>, returns \<open>None()\<close> when \<open>target_level < 0\<close> or
  \<open>target_level > 28\<close>, and returns a value for every identifier and every target level.
\<close>

theorem v2_parent_level_total:
  "(0 \<le> target_level \<and> target_level \<le> kMaxLevel \<and> v2_level x \<le> target_level
      \<longrightarrow> v2_parent_level x target_level = Some x)
   \<and> (target_level < 0 \<or> kMaxLevel < target_level
      \<longrightarrow> v2_parent_level x target_level = Some v2_None)
   \<and> (\<exists>r. v2_parent_level x target_level = Some r)"
proof -
  have "\<exists>r. v2_parent_level x target_level = Some r"
    using v2_parent_level_returns [of x target_level] by blast
  then show ?thesis by (auto simp: v2_parent_level_def)
qed

theorem v2_parent_level_total_witness:
  "v2_is_valid 0x2000000000000142 \<and> v2_level 0x2000000000000142 = 2
   \<and> v2_parent_level 0x2000000000000142 5 = Some 0x2000000000000142
   \<and> v2_parent_level 0x2000000000000142 (- 1) = Some v2_None
   \<and> v2_parent_level 0x2000000000000142 29 = Some v2_None"
proof -
  have a: "v2_is_valid 0x2000000000000142" "v2_level 0x2000000000000142 = 2"
    "(5 :: int) \<le> kMaxLevel" "kMaxLevel < (29 :: int)"
    by code_simp+
  show ?thesis
    using a v2_parent_level_total [of 5 "0x2000000000000142"]
      v2_parent_level_total [of "- 1" "0x2000000000000142"]
      v2_parent_level_total [of 29 "0x2000000000000142"]
    by simp
qed

text \<open>
  C7, as stated, fails: \<open>is_valid()\<close> does not look at the path bits of a level-0
  identifier, so the value 32 is valid, prints as \<open>"0"\<close> and parses back as the root marker.
\<close>

theorem string_round_trip_counterexample:
  "v2_is_valid 32 \<and> v2_ToString 32 = ''0''
   \<and> v2_FromString (v2_ToString 32) = 0x1000000000000000
   \<and> (v2_FromString (v2_ToString 32) = 32) = False"
  by code_simp

text \<open>
  C7, amended. For every valid Compact identifier \<open>x\<close> of level above 0, and for every
  valid level-0 identifier that is \<open>FromFaceLevel(face, 0)\<close>, \<open>FromString(ToString(x)) = x\<close>.
  \<open>ToString\<close> renders a valid level-0 cell as \<open>"<face>"\<close> and a deeper valid cell as
  \<open>"<face>/<path-digits>"\<close>, with one digit \<open>'0'..'3'\<close> per level, from root to leaf, and
  every invalid identifier as \<open>"INVALID"\<close>.
\<close>

theorem string_round_trip:
  "(v2_is_valid x \<and> (0 < v2_level x \<or> x = v2_FromFaceLevel (v2_face x) 0)
      \<longrightarrow> v2_FromString (v2_ToString x) = x)
   \<and> (v2_is_valid x \<and> v2_level x = 0
      \<longrightarrow> v2_ToString x = [digit_char (nat (v2_face x))])
   \<and> (v2_is_valid x \<and> 0 < v2_level x
      \<longrightarrow> v2_ToString x = digit_char (nat (v2_face x)) # CHR ''/''
                               # path_digits (v2_path x) (nat (v2_level x))
          \<and> length (path_digits (v2_path x) (nat (v2_level x))) = nat (v2_level x)
          \<and> set (path_digits (v2_path x) (nat (v2_level x))) \<subseteq> set ''0123''
          \<and> (\<forall>k < nat (v2_level x).
                path_digits (v2_path x) (nat (v2_level x)) ! k
                  = digit_char (unat (drop_bit (2 * (nat (v2_level x) - 1 - k)) (v2_path x) AND 3))))
   \<and> (\<not> v2_is_valid x \<longrightarrow> v2_ToString x = ''INVALID'')"
proof -
  have nth: "path_digits p n ! k = digit_char (unat (drop_bit (2 * (n - 1 - k)) p AND 3))"
    if "k < n" for p n k
    using that
  proof (induction n arbitrary: k)
    case 0
    then show ?case by simp
  next
    case (Suc n)
    show ?case
    proof (cases k)
      case 0
      then show ?thesis by (simp add: digit_char_def)
    next
      case (Suc j)
      then have "j < n" using Suc.prems by simp
      from Suc.IH [OF this] show ?thesis using Suc by simp
    qed
  qed
  show ?thesis
    using v2_FromString_ToString [of x] v2_ToString_forms [of x] set_path_digits nth
    by auto
qed

theorem string_round_trip_witness:
  "v2_is_valid 0x2000000000000142 \<and> v2_level 0x2000000000000142 = 2
   \<and> v2_ToString 0x2000000000000142 = ''1/22''
   \<and> v2_FromString ''1/22'' = 0x2000000000000142
   \<and> v2_is_valid 0x6000000000000000 \<and> v2_level 0x6000000000000000 = 0
   \<and> v2_FromFaceLevel 3 0 = 0x6000000000000000
   \<and> v2_ToString 0x6000000000000000 = ''3''
   \<and> v2_FromString ''3'' = 0x6000000000000000
   \<and> v2_ToString 0 = ''INVALID''"
proof -
  have a: "v2_is_valid 0x2000000000000142" "v2_level 0x2000000000000142 = 2"
    "v2_ToString 0x2000000000000142 = ''1/22''"
    by code_simp+
  have b: "v2_is_valid 0x6000000000000000" "v2_level 0x6000000000000000 = 0"
    "v2_face 0x6000000000000000 = 3" "v2_FromFaceLevel 3 0 = 0x6000000000000000"
    "v2_ToString 0x6000000000000000 = ''3''"
    by code_simp+
  have c: "v2_is_valid 0 = False" by code_simp
  have "v2_FromString (v2_ToString 0x2000000000000142) = 0x2000000000000142"
  proof -
    have "v2_is_valid 0x2000000000000142 \<and> (0 < v2_level 0x2000000000000142
        \<or> 0x2000000000000142 = v2_FromFaceLevel (v2_face 0x2000000000000142) 0)"
      using a(1,2) by simp
    then show ?thesis using string_round_trip [of "0x2000000000000142"] by blast
  qed
  then have r1: "v2_FromString ''1/22'' = 0x2000000000000142" by (simp only: a(3))
  have "v2_FromString (v2_ToString 0x6000000000000000) = 0x6000000000000000"
  proof -
    have "v2_is_valid 0x6000000000000000 \<and> (0 < v2_level 0x6000000000000000
        \<or> 0x6000000000000000 = v2_FromFaceLevel (v2_face 0x6000000000000000) 0)"
      using b(1-4) by simp
    then show ?thesis using string_round_trip [of "0x6000000000000000"] by blast
  qed
  then have r2: "v2_FromString ''3'' = 0x6000000000000000" by (simp only: b(5))
  have r3: "v2_ToString 0 = ''INVALID''" using c string_round_trip [of 0] by blast
  show ?thesis
    by (intro conjI a b(1,2,4,5) r1 r2 r3)
qed

end
